theory Spec2Isabelle
  imports Main "HOL-Library.Multiset" "HOL-Library.Sublist"
begin

section \<open>The document tree\<close>

text \<open>
  A DOM node is a text node or an element. Every node carries an identity (the object
  reference of the JavaScript program), so that a variable holding a node keeps denoting
  it while the tree around it changes. An element has a lower-case tag name, attributes,
  a class list (the tokens of its \<open>class\<close> attribute) and child nodes.
\<close>

type_synonym ident = nat

datatype node =
    Text ident string
  | Elem ident string "(string \<times> string) list" "string list" "node list"

fun nid :: "node \<Rightarrow> ident" where
  "nid (Text i s) = i"
| "nid (Elem i t a c ks) = i"

text \<open>\<open>nodeType\<close>: 1 for an element, 3 for a text node.\<close>

fun nodeType :: "node \<Rightarrow> nat" where
  "nodeType (Text i s) = 3"
| "nodeType (Elem i t a c ks) = 1"

fun childNodes :: "node \<Rightarrow> node list" where
  "childNodes (Text i s) = []"
| "childNodes (Elem i t a c ks) = ks"

fun tagName :: "node \<Rightarrow> string" where
  "tagName (Text i s) = []"
| "tagName (Elem i t a c ks) = t"

fun classList :: "node \<Rightarrow> string list" where
  "classList (Text i s) = []"
| "classList (Elem i t a c ks) = c"

fun attributes :: "node \<Rightarrow> (string \<times> string) list" where
  "attributes (Text i s) = []"
| "attributes (Elem i t a c ks) = a"

text \<open>\<open>textContent\<close>: the character data of the node and its descendants, in document order.\<close>

fun textContent :: "node \<Rightarrow> string" where
  "textContent (Text i s) = s"
| "textContent (Elem i t a c ks) = concat (map textContent ks)"

text \<open>The length of a node as a boundary container: characters of a text node,
  children of an element.\<close>

fun nodeLength :: "node \<Rightarrow> nat" where
  "nodeLength (Text i s) = length s"
| "nodeLength (Elem i t a c ks) = length ks"

text \<open>All nodes of a tree in document order (the node itself first).\<close>

fun nodes_of :: "node \<Rightarrow> node list" where
  "nodes_of (Text i s) = [Text i s]"
| "nodes_of (Elem i t a c ks) = Elem i t a c ks # concat (map nodes_of ks)"

text \<open>The path (child indices from the root) of the first node in document order that
  has the given identity.\<close>

fun path_of :: "ident \<Rightarrow> node \<Rightarrow> nat list option"
  and path_in :: "ident \<Rightarrow> nat \<Rightarrow> node list \<Rightarrow> nat list option" where
  "path_of i (Text j s) = (if i = j then Some [] else None)"
| "path_of i (Elem j t a c ks) = (if i = j then Some [] else path_in i 0 ks)"
| "path_in i k [] = None"
| "path_in i k (n # ns) =
     (case path_of i n of Some p \<Rightarrow> Some (k # p) | None \<Rightarrow> path_in i (Suc k) ns)"

fun node_at :: "nat list \<Rightarrow> node \<Rightarrow> node option" where
  "node_at [] n = Some n"
| "node_at (k # p) n =
     (if k < length (childNodes n) then node_at p (childNodes n ! k) else None)"

text \<open>The nodes met on the way down a path, the root first.\<close>

fun nodes_along :: "nat list \<Rightarrow> node \<Rightarrow> node list" where
  "nodes_along [] n = [n]"
| "nodes_along (k # p) n =
     (if k < length (childNodes n) then n # nodes_along p (childNodes n ! k) else [n])"

definition getNode :: "node \<Rightarrow> ident \<Rightarrow> node option" where
  "getNode r i = (case path_of i r of None \<Rightarrow> None | Some p \<Rightarrow> node_at p r)"

text \<open>The inclusive ancestors of a node, the node itself first and the root last.\<close>

definition inclusiveAncestors :: "node \<Rightarrow> ident \<Rightarrow> node list" where
  "inclusiveAncestors r i =
     (case path_of i r of None \<Rightarrow> [] | Some p \<Rightarrow> rev (nodes_along p r))"

definition parentNode :: "node \<Rightarrow> ident \<Rightarrow> node option" where
  "parentNode r i =
     (case path_of i r of
        None \<Rightarrow> None
      | Some p \<Rightarrow> (if p = [] then None else node_at (butlast p) r))"

text \<open>\<open>parentElement\<close>: the parent when it is an element. In this model every parent is.\<close>

definition parentElement :: "node \<Rightarrow> ident \<Rightarrow> node option" where
  "parentElement r i =
     (case parentNode r i of
        Some p \<Rightarrow> (if nodeType p = 1 then Some p else None)
      | None \<Rightarrow> None)"

text \<open>\<open>$.contains(a, b)\<close>: \<open>b\<close> is a descendant of \<open>a\<close> and not \<open>a\<close> itself.\<close>

definition contains :: "node \<Rightarrow> ident \<Rightarrow> ident \<Rightarrow> bool" where
  "contains r a b = (a \<noteq> b \<and> a \<in> nid ` set (inclusiveAncestors r b))"

section \<open>Ranges and the selection\<close>

text \<open>
  A boundary is a container node and an offset in it. A range is a pair of boundaries.
  The selection (rangy's selection object) has a list of ranges, and the anchor and the
  focus: where the user's interaction began and where it ended.
\<close>

record range =
  startContainer :: ident
  startOffset :: nat
  endContainer :: ident
  endOffset :: nat

record selection =
  anchorNode :: "ident option"
  anchorOffset :: nat
  focusNode :: "ident option"
  focusOffset :: nat
  ranges :: "range list"

text \<open>
  The state of the page: the document tree, the current selection
  (\<open>rangy.getSelection()\<close>), the global variable \<open>savedSelection\<close> (\<open>None\<close> is \<open>false\<close>)
  and the next unused node identity.
\<close>

text \<open>What \<open>rangy.saveSelection()\<close> returns for one range: the \<open>id\<close> attributes of the marker
  elements it put at the boundaries (one marker for a collapsed range).\<close>

datatype savedRange = SavedCollapsed string | SavedRange string string

record page =
  root :: node
  sel :: selection
  savedSelection :: "savedRange list option"
  fresh :: nat

text \<open>A jQuery object is the list of the nodes it wraps; \<open>$(null)\<close> is the empty one.\<close>

type_synonym jq = "ident list"

datatype jsval = Null | JQ jq

text \<open>The position of a boundary in document order: the path of its container followed
  by the offset. A boundary precedes another when its position is lexicographically
  smaller, a proper prefix counting as smaller.\<close>

fun lex_less :: "nat list \<Rightarrow> nat list \<Rightarrow> bool" where
  "lex_less [] [] = False"
| "lex_less [] (y # ys) = True"
| "lex_less (x # xs) [] = False"
| "lex_less (x # xs) (y # ys) = (x < y \<or> (x = y \<and> lex_less xs ys))"

definition point_pos :: "node \<Rightarrow> ident \<Rightarrow> nat \<Rightarrow> nat list option" where
  "point_pos r n off = (case path_of n r of None \<Rightarrow> None | Some p \<Rightarrow> Some (p @ [off]))"

text \<open>\<open>selection.isBackwards()\<close>: there is an anchor, and it lies after the focus in
  document order.\<close>

definition isBackwards :: "page \<Rightarrow> bool" where
  "isBackwards d =
     (case (anchorNode (sel d), focusNode (sel d)) of
        (Some a, Some f) \<Rightarrow>
          (case (point_pos (root d) a (anchorOffset (sel d)),
                 point_pos (root d) f (focusOffset (sel d))) of
             (Some pa, Some pf) \<Rightarrow> lex_less pf pa
           | _ \<Rightarrow> False)
      | _ \<Rightarrow> False)"

text \<open>The common ancestor container of a range: the deepest node that is an inclusive
  ancestor of both containers.\<close>

fun common_prefix :: "nat list \<Rightarrow> nat list \<Rightarrow> nat list" where
  "common_prefix (x # xs) (y # ys) = (if x = y then x # common_prefix xs ys else [])"
| "common_prefix xs ys = []"

definition commonAncestorContainer :: "node \<Rightarrow> range \<Rightarrow> node option" where
  "commonAncestorContainer r rg =
     (case (path_of (startContainer rg) r, path_of (endContainer rg) r) of
        (Some ps, Some pe) \<Rightarrow> node_at (common_prefix ps pe) r
      | _ \<Rightarrow> None)"

section \<open>Iterating over the ranges of a selection\<close>

text \<open>
  \<open>selectionEachRange(callback, selection, context)\<close>. The selection object is given by
  its method \<open>getAllRanges\<close>, which reads the range list of the current state; the
  callback is a state transformer. The loop fetches the list anew in every round and
  takes the range at index \<open>i\<close>; it stops when there is none. A callback that keeps
  adding ranges makes it run forever, which is the value \<open>None\<close>.
\<close>

partial_function (option) eachRange_from ::
  "('s \<Rightarrow> 'r list) \<Rightarrow> ('r \<Rightarrow> 's \<Rightarrow> 's) \<Rightarrow> nat \<Rightarrow> 's \<Rightarrow> 's option" where
  "eachRange_from getAllRanges callback i s =
     (if i < length (getAllRanges s)
      then eachRange_from getAllRanges callback (Suc i) (callback (getAllRanges s ! i) s)
      else Some s)"

declare eachRange_from.simps [code]

definition selectionEachRange ::
  "('r \<Rightarrow> 's \<Rightarrow> 's) \<Rightarrow> ('s \<Rightarrow> 'r list) \<Rightarrow> 's \<Rightarrow> 's option" where
  "selectionEachRange callback getAllRanges s = eachRange_from getAllRanges callback 0 s"

text \<open>The method \<open>getAllRanges\<close> of the current selection, \<open>rangy.getSelection()\<close>, for a
  state that pairs the page with the variables the callback closes over.\<close>

definition getAllRanges :: "page \<Rightarrow> range list" where
  "getAllRanges d = ranges (sel d)"

definition currentRanges :: "page \<times> 'u \<Rightarrow> range list" where
  "currentRanges s = getAllRanges (fst s)"

section \<open>The element of a range and of the selection's ends\<close>

text \<open>
  \<open>selectionGetElement(range)\<close>: the common ancestor container of the range, or its
  parent when that is a text node, as a jQuery object. Without a range it takes range 0
  of the current selection, and \<open>getRangeAt\<close> throws when there is none: the value
  \<open>None\<close> is a thrown exception.
\<close>

definition selectionGetElement :: "page \<Rightarrow> range option \<Rightarrow> jq option" where
  "selectionGetElement d rg0 =
     (case (case rg0 of Some rg \<Rightarrow> Some rg
                        | None \<Rightarrow> (case getAllRanges d of [] \<Rightarrow> None | rg # _ \<Rightarrow> Some rg)) of
        None \<Rightarrow> None
      | Some rg \<Rightarrow>
          (case commonAncestorContainer (root d) rg of
             None \<Rightarrow> None
           | Some ca \<Rightarrow>
               (if nodeType ca = 3
                then (case parentNode (root d) (nid ca) of
                        Some p \<Rightarrow> Some [nid p] | None \<Rightarrow> Some [])
                else Some [nid ca])))"


text \<open>\<open>$(node.nodeType === 3 ? node.parentElement : node)\<close>; \<open>None\<close> when the reference
  denotes no node of the document.\<close>

definition elementOf :: "node \<Rightarrow> ident \<Rightarrow> jq option" where
  "elementOf r i =
     (case getNode r i of
        None \<Rightarrow> None
      | Some n \<Rightarrow>
          (if nodeType n = 3
           then (case parentElement r i of Some p \<Rightarrow> Some [nid p] | None \<Rightarrow> Some [])
           else Some [nid n]))"

text \<open>
  \<open>selectionGetStartElement()\<close> and \<open>selectionGetEndElement()\<close>: \<open>Some Null\<close> is the
  returned \<open>null\<close>, \<open>None\<close> a thrown exception (a property read on \<open>null\<close>).
\<close>

definition selectionGetStartElement :: "page \<Rightarrow> jsval option" where
  "selectionGetStartElement d =
     (case anchorNode (sel d) of
        None \<Rightarrow> Some Null
      | Some a \<Rightarrow>
          (if isBackwards d
           then (case focusNode (sel d) of
                   None \<Rightarrow> None
                 | Some f \<Rightarrow> map_option JQ (elementOf (root d) f))
           else map_option JQ (elementOf (root d) a)))"

definition selectionGetEndElement :: "page \<Rightarrow> jsval option" where
  "selectionGetEndElement d =
     (case anchorNode (sel d) of
        None \<Rightarrow> Some Null
      | Some a \<Rightarrow>
          (if isBackwards d
           then map_option JQ (elementOf (root d) a)
           else (case focusNode (sel d) of
                   None \<Rightarrow> None
                 | Some f \<Rightarrow> map_option JQ (elementOf (root d) f))))"

definition isElementNode :: "node \<Rightarrow> ident \<Rightarrow> bool" where
  "isElementNode r e = (case getNode r e of Some n \<Rightarrow> nodeType n = 1 | None \<Rightarrow> False)"

section \<open>Replacing the selection\<close>

text \<open>
  \<open>Array.prototype.concat\<close> leaves its receiver as it is and returns a new array: the
  pair is the receiver after the call and the array returned.
\<close>

definition array_concat :: "'a list \<Rightarrow> 'a list \<Rightarrow> 'a list \<times> 'a list" where
  "array_concat xs ys = (xs, xs @ ys)"

text \<open>
  \<open>selectionReplace(html, selection)\<close>. \<open>rangeReplace\<close> is not part of this file of the
  program; it is a parameter that returns the nodes it inserted and the new page. The
  callback calls \<open>result.concat(rangeReplace(html, range))\<close> and drops the array that
  \<open>concat\<close> returns.
\<close>

definition selectionReplace ::
  "('h \<Rightarrow> range \<Rightarrow> page \<Rightarrow> 'x list \<times> page) \<Rightarrow> 'h \<Rightarrow> (page \<times> 'x list \<Rightarrow> range list)
     \<Rightarrow> page \<Rightarrow> ('x list \<times> page) option" where
  "selectionReplace rangeReplace html selection d =
     (case selectionEachRange
             (\<lambda>rg (p, result).
                (case rangeReplace html rg p of
                   (replaced, p') \<Rightarrow>
                     (case array_concat result replaced of
                        (result', returned) \<Rightarrow> (p', result'))))
             selection (d, []) of
        None \<Rightarrow> None
      | Some (p, result) \<Rightarrow> Some (result, p))"

section \<open>Constraining the selection to an element\<close>

text \<open>\<open>selection.removeRange(range)\<close> of rangy: the first instance of the range leaves
  the selection's list.\<close>

definition removeRange :: "range \<Rightarrow> selection \<Rightarrow> selection" where
  "removeRange rg s = s\<lparr>ranges := remove1 rg (ranges s)\<rparr>"

text \<open>
  The common ancestor of a range as \<open>selectionConstrain\<close> computes it: the common
  ancestor container, or the parent of it when it is a text node. \<open>None\<close> is
  \<open>undefined\<close>: the containers are not in the document, or the text node has no parent.
\<close>

definition constrainAncestor :: "node \<Rightarrow> range \<Rightarrow> ident option" where
  "constrainAncestor r rg =
     (case commonAncestorContainer r rg of
        None \<Rightarrow> None
      | Some ca \<Rightarrow>
          (if nodeType ca = 3 then map_option nid (parentNode r (nid ca)) else Some (nid ca)))"

text \<open>The test \<open>element !== commonAncestor && !$.contains(element, commonAncestor)\<close>.\<close>

definition rangeOutside :: "node \<Rightarrow> ident \<Rightarrow> range \<Rightarrow> bool" where
  "rangeOutside r element rg =
     (case constrainAncestor r rg of
        None \<Rightarrow> True
      | Some ca \<Rightarrow> element \<noteq> ca \<and> \<not> contains r element ca)"

text \<open>
  \<open>selectionConstrain(element, selection)\<close>, for the current selection.
  \<open>rangy.getSelection()\<close> is always an object, so the branch \<open>if (!selection)\<close> that
  calls \<open>selectionSelectStart\<close> is never taken. The loop runs over the array that
  \<open>getAllRanges()\<close> returned before the first removal.
\<close>

definition selectionConstrain :: "ident \<Rightarrow> page \<Rightarrow> page" where
  "selectionConstrain element d =
     d\<lparr>sel := fold (\<lambda>rg s. if rangeOutside (root d) element rg then removeRange rg s else s)
                   (getAllRanges d) (sel d)\<rparr>"

section \<open>The caret at the edge of an element\<close>

text \<open>\<open>nextSibling\<close> and \<open>previousSibling\<close> of a node of the document.\<close>

definition nextSibling :: "node \<Rightarrow> ident \<Rightarrow> node option" where
  "nextSibling r i =
     (case (path_of i r, parentNode r i) of
        (Some p, Some m) \<Rightarrow>
          (if Suc (last p) < length (childNodes m) then Some (childNodes m ! Suc (last p))
           else None)
      | _ \<Rightarrow> None)"

definition previousSibling :: "node \<Rightarrow> ident \<Rightarrow> node option" where
  "previousSibling r i =
     (case (path_of i r, parentNode r i) of
        (Some p, Some m) \<Rightarrow>
          (if 0 < last p \<and> last p - 1 < length (childNodes m)
           then Some (childNodes m ! (last p - 1)) else None)
      | _ \<Rightarrow> None)"

text \<open>
  \<open>$(node).html() === ''\<close>: jQuery's \<open>html()\<close> is the \<open>innerHTML\<close> of an element and
  \<open>undefined\<close> for a text node; the \<open>innerHTML\<close> is empty when no child serialises to
  anything, that is, when every child is a text node without characters.
\<close>

fun emptyText :: "node \<Rightarrow> bool" where
  "emptyText (Text i s) = (s = [])"
| "emptyText (Elem i t a c ks) = False"

definition htmlIsEmpty :: "node \<Rightarrow> bool" where
  "htmlIsEmpty n = (nodeType n = 1 \<and> list_all emptyText (childNodes n))"

text \<open>
  \<open>selectionAtEndOfElement()\<close>. The node is the anchor node when the selection is
  backwards and the focus node otherwise; the offset is the focus offset when the
  selection is backwards and the anchor offset otherwise. \<open>None\<close> is the exception of
  reading a property of \<open>null\<close>.
\<close>

definition selectionAtEndOfElement :: "page \<Rightarrow> bool option" where
  "selectionAtEndOfElement d =
     (let focusNode' = (if isBackwards d then anchorNode (sel d) else focusNode (sel d));
          focusOffset' = (if isBackwards d then focusOffset (sel d) else anchorOffset (sel d))
      in case focusNode' of
           None \<Rightarrow> None
         | Some f \<Rightarrow>
             (case getNode (root d) f of
                None \<Rightarrow> None
              | Some n \<Rightarrow>
                  (if focusOffset' \<noteq> length (textContent n) then Some False
                   else (case nextSibling (root d) f of
                           None \<Rightarrow> Some True
                         | Some previous \<Rightarrow> Some (htmlIsEmpty previous)))))"

text \<open>
  \<open>selectionAtStartOfElement()\<close>. The condition
  \<open>selection.isBackwards() ? selection.focusOffset : selection.anchorOffset !== 0\<close> is read
  by JavaScript as \<open>isBackwards() ? focusOffset : (anchorOffset !== 0)\<close>; a number is
  truthy when it is not 0.
\<close>

definition selectionAtStartOfElement :: "page \<Rightarrow> bool option" where
  "selectionAtStartOfElement d =
     (let anchorNode' = (if isBackwards d then focusNode (sel d) else anchorNode (sel d))
      in if (if isBackwards d then focusOffset (sel d) \<noteq> 0 else anchorOffset (sel d) \<noteq> 0)
         then Some False
         else (case anchorNode' of
                 None \<Rightarrow> None
               | Some a \<Rightarrow>
                   (case getNode (root d) a of
                      None \<Rightarrow> None
                    | Some n \<Rightarrow>
                        (case previousSibling (root d) a of
                           None \<Rightarrow> Some True
                         | Some previous \<Rightarrow> Some (htmlIsEmpty previous)))))"

section \<open>Blocks of the selection\<close>

text \<open>
  Modelled from the spec: \<open>elementClosestBlock(element, limitElement)\<close> is not in the
  sources. The spec: walk up from the container toward the limit element until a
  block-level element is found (an element whose display is not inline, by the style
  query); there is no block when the limit is reached first. The style query is the
  parameter \<open>inl\<close>: it holds of the elements that are displayed inline.
\<close>

fun closestBlockIn :: "(node \<Rightarrow> bool) \<Rightarrow> ident \<Rightarrow> node list \<Rightarrow> ident option" where
  "closestBlockIn inl limit [] = None"
| "closestBlockIn inl limit (n # ns) =
     (if nid n = limit then None
      else if nodeType n = 1 \<and> \<not> inl n then Some (nid n)
      else closestBlockIn inl limit ns)"

definition elementClosestBlock :: "(node \<Rightarrow> bool) \<Rightarrow> node \<Rightarrow> ident \<Rightarrow> ident \<Rightarrow> ident option" where
  "elementClosestBlock inl r element limit = closestBlockIn inl limit (inclusiveAncestors r element)"

text \<open>
  Modelled from the spec: \<open>elementWrapInner(element, tag)\<close> is not in the sources. The
  spec: wrap the limit element's entire content in a new wrapper element of the given
  tag; the wrapper is returned. The children keep their identity, so boundaries inside
  them stay as they are; a boundary in the limit element itself moves into the wrapper
  (the selection is kept semantically stable).
\<close>

text \<open>\<open>modify_at p f\<close> replaces the node at path \<open>p\<close> by its image under \<open>f\<close>.\<close>

fun modify_at :: "nat list \<Rightarrow> (node \<Rightarrow> node) \<Rightarrow> node \<Rightarrow> node" where
  "modify_at [] f n = f n"
| "modify_at (k # p) f (Text i s) = Text i s"
| "modify_at (k # p) f (Elem i t a c ks) =
     (if k < length ks then Elem i t a c (ks[k := modify_at p f (ks ! k)])
      else Elem i t a c ks)"

fun wrapChildren :: "ident \<Rightarrow> string \<Rightarrow> node \<Rightarrow> node" where
  "wrapChildren w tag (Text i s) = Text i s"
| "wrapChildren w tag (Elem i t a c ks) = Elem i t a c [Elem w tag [] [] ks]"

definition wrapInnerAt :: "ident \<Rightarrow> ident \<Rightarrow> string \<Rightarrow> node \<Rightarrow> node" where
  "wrapInnerAt l w tag r =
     (case path_of l r of None \<Rightarrow> r | Some p \<Rightarrow> modify_at p (wrapChildren w tag) r)"

definition moveBoundary :: "ident \<Rightarrow> ident \<Rightarrow> ident \<Rightarrow> ident" where
  "moveBoundary l w n = (if n = l then w else n)"

definition moveRange :: "ident \<Rightarrow> ident \<Rightarrow> range \<Rightarrow> range" where
  "moveRange l w rg =
     rg\<lparr>startContainer := moveBoundary l w (startContainer rg),
        endContainer := moveBoundary l w (endContainer rg)\<rparr>"

definition moveSelection :: "ident \<Rightarrow> ident \<Rightarrow> selection \<Rightarrow> selection" where
  "moveSelection l w s =
     s\<lparr>anchorNode := map_option (moveBoundary l w) (anchorNode s),
       focusNode := map_option (moveBoundary l w) (focusNode s),
       ranges := map (moveRange l w) (ranges s)\<rparr>"

definition elementWrapInner :: "ident \<Rightarrow> string \<Rightarrow> page \<Rightarrow> ident \<times> page" where
  "elementWrapInner element tag d =
     (fresh d,
      d\<lparr>root := wrapInnerAt element (fresh d) tag (root d),
        sel := moveSelection element (fresh d) (sel d),
        fresh := Suc (fresh d)\<rparr>)"

text \<open>jQuery's \<open>nextAll()\<close>: the following siblings that are elements; \<open>nextUntil(e)\<close>:
  those of them before the element \<open>e\<close>.\<close>

definition nextAll :: "node \<Rightarrow> ident \<Rightarrow> node list" where
  "nextAll r i =
     (case (path_of i r, parentNode r i) of
        (Some p, Some m) \<Rightarrow> filter (\<lambda>n. nodeType n = 1) (drop (Suc (last p)) (childNodes m))
      | _ \<Rightarrow> [])"

definition nextUntil :: "node \<Rightarrow> ident \<Rightarrow> ident \<Rightarrow> node list" where
  "nextUntil r i e = takeWhile (\<lambda>n. nid n \<noteq> e) (nextAll r i)"

text \<open>jQuery keeps the result of \<open>add\<close> and \<open>andSelf\<close> in document order and without
  duplicates.\<close>

definition docOrder :: "node \<Rightarrow> ident list \<Rightarrow> ident list" where
  "docOrder r xs = filter (\<lambda>i. i \<in> set xs) (map nid (nodes_of r))"

text \<open>The string that JavaScript concatenates for an optional tag name.\<close>

definition tagString :: "string option \<Rightarrow> string" where
  "tagString t = (case t of None \<Rightarrow> ''undefined'' | Some x \<Rightarrow> x)"

text \<open>
  \<open>selectionEachBlock(callback, limitElement, blockContainer)\<close>. The three checks under
  \<open><strict>\<close> test the types of the arguments, which the types of this definition
  fix. \<open>eachBlockOfRange\<close> is the function it hands to \<open>selectionEachRange\<close>; the
  callback gets a block and the state: the page and the variables it closes over.
\<close>

definition eachBlockOfRange ::
  "(node \<Rightarrow> bool) \<Rightarrow> (ident \<Rightarrow> page \<times> 'u \<Rightarrow> page \<times> 'u) \<Rightarrow> ident \<Rightarrow> string option
     \<Rightarrow> range \<Rightarrow> page \<times> 'u \<Rightarrow> page \<times> 'u" where
  "eachBlockOfRange inl callback limitElement blockContainer rg s =
     (case (elementClosestBlock inl (root (fst s)) (startContainer rg) limitElement,
            elementClosestBlock inl (root (fst s)) (endContainer rg) limitElement) of
        (Some startBlock, Some endBlock) \<Rightarrow>
          fold callback
            (if startBlock = endBlock then [startBlock]
             else docOrder (root (fst s))
                    (docOrder (root (fst s))
                       (map nid (nextUntil (root (fst s)) startBlock endBlock) @ [startBlock])
                     @ [endBlock]))
            s
      | _ \<Rightarrow>
          (case elementWrapInner limitElement (tagString blockContainer) (fst s) of
             (wrapper, d') \<Rightarrow> callback wrapper (d', snd s)))"

definition selectionEachBlock ::
  "(node \<Rightarrow> bool) \<Rightarrow> (ident \<Rightarrow> page \<times> 'u \<Rightarrow> page \<times> 'u) \<Rightarrow> ident \<Rightarrow> string option
     \<Rightarrow> page \<times> 'u \<Rightarrow> (page \<times> 'u) option" where
  "selectionEachBlock inl callback limitElement blockContainer s =
     selectionEachRange (eachBlockOfRange inl callback limitElement blockContainer)
       currentRanges s"

section \<open>Toggling classes on the blocks of the selection\<close>

text \<open>jQuery's class methods. A class name is a token without white space, so joining
  the names with spaces and splitting the result gives the list back.\<close>

definition classesOf :: "node \<Rightarrow> ident \<Rightarrow> string list" where
  "classesOf r block = (case getNode r block of Some n \<Rightarrow> classList n | None \<Rightarrow> [])"

definition hasClass :: "node \<Rightarrow> ident \<Rightarrow> string \<Rightarrow> bool" where
  "hasClass r block c = (c \<in> set (classesOf r block))"

definition addTokens :: "string list \<Rightarrow> string list \<Rightarrow> string list" where
  "addTokens cs c = fold (\<lambda>x c'. if x \<in> set c' then c' else c' @ [x]) cs c"

definition stripTokens :: "string list \<Rightarrow> string list \<Rightarrow> string list" where
  "stripTokens cs c = filter (\<lambda>x. x \<notin> set cs) c"

fun setClasses :: "(ident \<Rightarrow> string list \<Rightarrow> string list) \<Rightarrow> node \<Rightarrow> node" where
  "setClasses f (Text i s) = Text i s"
| "setClasses f (Elem i t a c ks) = Elem i t a (f i c) (map (setClasses f) ks)"

definition addClass :: "ident list \<Rightarrow> string list \<Rightarrow> node \<Rightarrow> node" where
  "addClass blocks cs r = setClasses (\<lambda>i c. if i \<in> set blocks then addTokens cs c else c) r"

definition removeClass :: "ident list \<Rightarrow> string list \<Rightarrow> node \<Rightarrow> node" where
  "removeClass blocks cs r = setClasses (\<lambda>i c. if i \<in> set blocks then stripTokens cs c else c) r"

text \<open>
  The callback of \<open>selectionToggleBlockClasses\<close>: it pushes the block and, while
  \<open>apply\<close> is false, sets it when the block lacks one of the classes to add.
\<close>

definition collectBlock ::
  "string list \<Rightarrow> ident \<Rightarrow> page \<times> bool \<times> ident list \<Rightarrow> page \<times> bool \<times> ident list" where
  "collectBlock addClasses block s =
     (case s of (d, apply, blocks) \<Rightarrow>
        (d,
         (if \<not> apply
          then fold (\<lambda>c a. if \<not> hasClass (root d) block c then True else a) addClasses apply
          else apply),
         blocks @ [block]))"

text \<open>
  \<open>selectionToggleBlockClasses(addClasses, removeClasses, limitElement, blockContainer)\<close>.
  The four checks under \<open><strict>\<close> are again fixed by the types.
\<close>

definition selectionToggleBlockClasses ::
  "(node \<Rightarrow> bool) \<Rightarrow> string list \<Rightarrow> string list \<Rightarrow> ident \<Rightarrow> string option \<Rightarrow> page
     \<Rightarrow> page option" where
  "selectionToggleBlockClasses inl addClasses removeClasses limitElement blockContainer d =
     (case selectionEachBlock inl (collectBlock addClasses) limitElement blockContainer
             (d, False, []) of
        None \<Rightarrow> None
      | Some (p, apply, blocks) \<Rightarrow>
          Some (p\<lparr>root :=
                  (if apply then addClass blocks addClasses
                   else removeClass blocks addClasses)
                    (removeClass blocks removeClasses (root p))\<rparr>))"

text \<open>A style sheet for the examples: the elements with these tags are displayed
  inline, all others as blocks.\<close>

definition inlineTags :: "node \<Rightarrow> bool" where
  "inlineTags n = (tagName n \<in> set [''span'', ''b'', ''i'', ''em'', ''strong'', ''a'', ''u''])"

section \<open>Well-formed pages\<close>

text \<open>The nodes of a page have distinct identities, all below the next unused one.\<close>

definition wf_page :: "page \<Rightarrow> bool" where
  "wf_page d =
     (distinct (map nid (nodes_of (root d))) \<and> list_all (\<lambda>n. nid n < fresh d) (nodes_of (root d)))"

text \<open>What the queries by identity read of a node: its identity, type and classes.\<close>

definition headOf :: "node \<Rightarrow> ident \<times> nat \<times> string list" where
  "headOf n = (nid n, nodeType n, classList n)"

definition heads :: "node \<Rightarrow> (ident \<times> nat \<times> string list) list" where
  "heads r = map headOf (nodes_of r)"

section \<open>Example pages\<close>

text \<open>\<open><p>abc</p>\<close> with the characters \<open>bc\<close> selected forwards.\<close>

definition page_abc :: page where
  "page_abc =
     \<lparr>root = Elem 1 ''p'' [] [] [Text 2 ''abc''],
      sel = \<lparr>anchorNode = Some 2, anchorOffset = 1, focusNode = Some 2, focusOffset = 3,
             ranges = [\<lparr>startContainer = 2, startOffset = 1,
                        endContainer = 2, endOffset = 3\<rparr>]\<rparr>,
      savedSelection = None, fresh = 3\<rparr>"

text \<open>\<open><div><p>ab</p><p>cd</p></div>\<close> with \<open>a\<close> selected as the first range and \<open>cd\<close>
  as the second.\<close>

definition page_two :: page where
  "page_two =
     \<lparr>root = Elem 1 ''div'' [] [] [Elem 2 ''p'' [] [] [Text 3 ''ab''],
                                   Elem 4 ''p'' [] [] [Text 5 ''cd'']],
      sel = \<lparr>anchorNode = Some 3, anchorOffset = 0, focusNode = Some 5, focusOffset = 2,
             ranges = [\<lparr>startContainer = 3, startOffset = 0,
                        endContainer = 3, endOffset = 1\<rparr>,
                       \<lparr>startContainer = 5, startOffset = 0,
                        endContainer = 5, endOffset = 2\<rparr>]\<rparr>,
      savedSelection = None, fresh = 6\<rparr>"

text \<open>\<open><div><p>ab</p>cd</div>\<close>, selected from the start of \<open>ab\<close> to the end of \<open>cd\<close>.\<close>

definition page_mixed :: page where
  "page_mixed =
     \<lparr>root = Elem 1 ''div'' [] [] [Elem 2 ''p'' [] [] [Text 3 ''ab''], Text 4 ''cd''],
      sel = \<lparr>anchorNode = Some 3, anchorOffset = 0, focusNode = Some 4, focusOffset = 2,
             ranges = [\<lparr>startContainer = 3, startOffset = 0,
                        endContainer = 4, endOffset = 2\<rparr>]\<rparr>,
      savedSelection = None, fresh = 5\<rparr>"

text \<open>A callback on blocks that logs the block it is given.\<close>

definition logBlock :: "ident \<Rightarrow> page \<times> ident list \<Rightarrow> page \<times> ident list" where
  "logBlock block s = (fst s, snd s @ [block])"

section \<open>Tracing an iteration\<close>

text \<open>
  To speak about the calls of a callback, the callback is made to log each call: the
  range it was given and the state it was called in.
\<close>

definition traced :: "('r \<Rightarrow> 's \<Rightarrow> 's) \<Rightarrow> 'r \<Rightarrow> 's \<times> ('r \<times> 's) list \<Rightarrow> 's \<times> ('r \<times> 's) list" where
  "traced callback r = (\<lambda>(s, log). (callback r s, log @ [(r, s)]))"

text \<open>The state after \<open>k\<close> rounds of the loop: round \<open>k\<close> gives the callback the range
  at index \<open>k\<close> of the list fetched from the state that round \<open>k - 1\<close> left.\<close>

primrec state_after :: "('s \<Rightarrow> 'r list) \<Rightarrow> ('r \<Rightarrow> 's \<Rightarrow> 's) \<Rightarrow> 's \<Rightarrow> nat \<Rightarrow> 's" where
  "state_after gar callback s 0 = s"
| "state_after gar callback s (Suc k) =
     callback (gar (state_after gar callback s k) ! k) (state_after gar callback s k)"

text \<open>The log of the first \<open>n\<close> rounds.\<close>

definition trace_upto :: "('s \<Rightarrow> 'r list) \<Rightarrow> ('r \<Rightarrow> 's \<Rightarrow> 's) \<Rightarrow> 's \<Rightarrow> nat \<Rightarrow> ('r \<times> 's) list" where
  "trace_upto gar cb s n = map (\<lambda>k. (gar (state_after gar cb s k) ! k, state_after gar cb s k)) [0..<n]"

text \<open>A callback that removes the range it is given from the current selection.\<close>

definition removeOwnRange :: "range \<Rightarrow> page \<Rightarrow> page" where
  "removeOwnRange rg d = d\<lparr>sel := removeRange rg (sel d)\<rparr>"

section \<open>Helpers for stating the properties of the block operations\<close>

text \<open>The invariant of the collecting loop of \<open>selectionToggleBlockClasses\<close>: the page is
  well formed, the limit element and the collected blocks are elements of it, and
  \<open>apply\<close> says whether a collected block lacks a class to add.\<close>

definition toggleInv :: "string list \<Rightarrow> ident \<Rightarrow> page \<times> bool \<times> ident list \<Rightarrow> bool" where
  "toggleInv add limit s =
     (case s of (d, apply, blocks) \<Rightarrow>
        wf_page d \<and> isElementNode (root d) limit
        \<and> list_all (isElementNode (root d)) blocks
        \<and> (apply \<longleftrightarrow> list_ex (\<lambda>b. list_ex (\<lambda>c. \<not> hasClass (root d) b c) add) blocks))"

text \<open>A callback on blocks made to log the blocks it is given.\<close>

definition loggedBlock ::
  "(ident \<Rightarrow> page \<times> 'u \<Rightarrow> page \<times> 'u) \<Rightarrow> ident \<Rightarrow> page \<times> 'u \<times> ident list \<Rightarrow> page \<times> 'u \<times> ident list" where
  "loggedBlock callback block s =
     (case s of (d, u, log) \<Rightarrow>
        (case callback block (d, u) of (d', u') \<Rightarrow> (d', u', log @ [block])))"

text \<open>\<open>page_two\<close> with the class \<open>x\<close> on both paragraphs.\<close>

definition page_two_x :: page where
  "page_two_x = page_two\<lparr>root := addClass [2, 4] [''x''] (root page_two)\<rparr>"


text \<open>\<open><div><p>a</p>x<span>y</span><p>b</p><p>c</p></div>\<close>, selected from \<open>a\<close> to \<open>b\<close>.\<close>

definition page_blocks :: page where
  "page_blocks =
     \<lparr>root = Elem 1 ''div'' [] []
               [Elem 2 ''p'' [] [] [Text 3 ''a''], Text 4 ''x'',
                Elem 5 ''span'' [] [] [Text 6 ''y''],
                Elem 7 ''p'' [] [] [Text 8 ''b''], Elem 9 ''p'' [] [] [Text 10 ''c'']],
      sel = \<lparr>anchorNode = Some 3, anchorOffset = 0, focusNode = Some 8, focusOffset = 1,
             ranges = [\<lparr>startContainer = 3, startOffset = 0,
                        endContainer = 8, endOffset = 1\<rparr>]\<rparr>,
      savedSelection = None, fresh = 11\<rparr>"

text \<open>\<open><div><p>a</p><ul><li>b</li></ul><p>z</p></div>\<close>, selected from \<open>a\<close> to \<open>b\<close>.\<close>

definition page_list :: page where
  "page_list =
     \<lparr>root = Elem 1 ''div'' [] []
               [Elem 2 ''p'' [] [] [Text 3 ''a''],
                Elem 4 ''ul'' [] [] [Elem 5 ''li'' [] [] [Text 6 ''b'']],
                Elem 7 ''p'' [] [] [Text 8 ''z'']],
      sel = \<lparr>anchorNode = Some 3, anchorOffset = 0, focusNode = Some 6, focusOffset = 1,
             ranges = [\<lparr>startContainer = 3, startOffset = 0,
                        endContainer = 6, endOffset = 1\<rparr>]\<rparr>,
      savedSelection = None, fresh = 9\<rparr>"
section \<open>Markup\<close>

text \<open>
  The serialisation of nodes (\<open>outerHTML\<close>, \<open>innerHTML\<close>): text is escaped, an element
  is written with its class attribute, its other attributes and its children. The
  identities of the nodes do not show in the markup.
\<close>

fun escapeChar :: "char \<Rightarrow> string" where
  "escapeChar ch =
     (if ch = CHR ''&'' then ''&amp;''
      else if ch = CHR ''<'' then ''&lt;''
      else if ch = CHR ''>'' then ''&gt;''
      else [ch])"

definition escapeText :: "string \<Rightarrow> string" where
  "escapeText s = concat (map escapeChar s)"

fun joinWith :: "string \<Rightarrow> string list \<Rightarrow> string" where
  "joinWith sep [] = []"
| "joinWith sep [x] = x"
| "joinWith sep (x # y # ys) = x @ sep @ joinWith sep (y # ys)"

definition attrsHTML :: "(string \<times> string) list \<Rightarrow> string list \<Rightarrow> string" where
  "attrsHTML a c =
     (if c = [] then [] else '' class=\"'' @ joinWith '' '' c @ ''\"'')
     @ concat (map (\<lambda>(k, v). '' '' @ k @ ''=\"'' @ v @ ''\"'') a)"

fun outerHTML :: "node \<Rightarrow> string" where
  "outerHTML (Text i s) = escapeText s"
| "outerHTML (Elem i t a c ks) =
     ''<'' @ t @ attrsHTML a c @ ''>'' @ concat (map outerHTML ks) @ ''</'' @ t @ ''>''"

text \<open>
  Modelled from the spec: \<open>fragmentToHtml(fragment)\<close> is not in the sources. The spec:
  serialize a detached node sequence to markup text.
\<close>

definition fragmentToHtml :: "node list \<Rightarrow> string" where
  "fragmentToHtml frag = concat (map outerHTML frag)"




section \<open>Editing the tree at a path\<close>

text \<open>\<open>splice_at p f\<close> replaces the node at the non-empty path \<open>p\<close>, in the children of
  its parent, by the nodes \<open>f\<close> makes of it.\<close>

fun splice_at :: "nat list \<Rightarrow> (node \<Rightarrow> node list) \<Rightarrow> node \<Rightarrow> node" where
  "splice_at [] f n = n"
| "splice_at (k # p) f (Text i s) = Text i s"
| "splice_at [k] f (Elem i t a c ks) =
     (if k < length ks then Elem i t a c (take k ks @ f (ks ! k) @ drop (Suc k) ks)
      else Elem i t a c ks)"
| "splice_at (k # k' # p) f (Elem i t a c ks) =
     (if k < length ks then Elem i t a c (ks[k := splice_at (k' # p) f (ks ! k)])
      else Elem i t a c ks)"

fun setChildren :: "node list \<Rightarrow> node \<Rightarrow> node" where
  "setChildren ks' (Text i s) = Text i s"
| "setChildren ks' (Elem i t a c ks) = Elem i t a c ks'"

text \<open>
  The part of a node before, and after, the boundary at path \<open>p\<close> and offset \<open>o\<close> below
  it. The nodes on the path are cut; \<open>g\<close> gives them their identity: the identity they
  have for the part that stays in the tree, a new one for a clone.
\<close>

fun cutBefore :: "(ident \<Rightarrow> ident) \<Rightarrow> nat list \<Rightarrow> nat \<Rightarrow> node \<Rightarrow> node" where
  "cutBefore g [] off (Text i s) = Text (g i) (take off s)"
| "cutBefore g [] off (Elem i t a c ks) = Elem (g i) t a c (take off ks)"
| "cutBefore g (k # p) off (Text i s) = Text (g i) s"
| "cutBefore g (k # p) off (Elem i t a c ks) =
     (if k < length ks then Elem (g i) t a c (take k ks @ [cutBefore g p off (ks ! k)])
      else Elem (g i) t a c ks)"

fun cutAfter :: "(ident \<Rightarrow> ident) \<Rightarrow> nat list \<Rightarrow> nat \<Rightarrow> node \<Rightarrow> node" where
  "cutAfter g [] off (Text i s) = Text (g i) (drop off s)"
| "cutAfter g [] off (Elem i t a c ks) = Elem (g i) t a c (drop off ks)"
| "cutAfter g (k # p) off (Text i s) = Text (g i) []"
| "cutAfter g (k # p) off (Elem i t a c ks) =
     (if k < length ks then Elem (g i) t a c (cutAfter g p off (ks ! k) # drop (Suc k) ks)
      else Elem (g i) t a c [])"

text \<open>
  The DOM's algorithm to extract a range, for the boundaries \<open>(ps, so)\<close> and \<open>(pe, oe)\<close>
  given by their paths below the node: the node without the contents of the range, and
  the contents. A child that the range contains wholly moves into the contents; a child
  that holds a boundary stays, cut at the boundary, and a clone of it holds the part in
  the range. \<open>g\<close> gives the clones their identity.
\<close>

fun extractAt ::
  "(ident \<Rightarrow> ident) \<Rightarrow> nat list \<Rightarrow> nat \<Rightarrow> nat list \<Rightarrow> nat \<Rightarrow> node \<Rightarrow> node \<times> node list" where
  "extractAt g [] so [] oe (Text i s) =
     (Text i (take so s @ drop oe s), [Text (g i) (take (oe - so) (drop so s))])"
| "extractAt g [] so [] oe (Elem i t a c ks) =
     (Elem i t a c (take so ks @ drop oe ks), take (oe - so) (drop so ks))"
| "extractAt g (x # ps) so (y # pe) oe (Elem i t a c ks) =
     (if x = y
      then (if x < length ks
            then (case extractAt g ps so pe oe (ks ! x) of
                    (rest, frag) \<Rightarrow> (Elem i t a c (ks[x := rest]), frag))
            else (Elem i t a c ks, []))
      else (Elem i t a c (take x ks @ [cutBefore id ps so (ks ! x)]
                            @ [cutAfter id pe oe (ks ! y)] @ drop (Suc y) ks),
            [cutAfter g ps so (ks ! x)] @ take (y - Suc x) (drop (Suc x) ks)
              @ [cutBefore g pe oe (ks ! y)]))"
| "extractAt g [] so (y # pe) oe (Elem i t a c ks) =
     (Elem i t a c (take so ks @ [cutAfter id pe oe (ks ! y)] @ drop (Suc y) ks),
      take (y - so) (drop so ks) @ [cutBefore g pe oe (ks ! y)])"
| "extractAt g (x # ps) so [] oe (Elem i t a c ks) =
     (Elem i t a c (take x ks @ [cutBefore id ps so (ks ! x)] @ drop oe ks),
      [cutAfter g ps so (ks ! x)] @ take (oe - Suc x) (drop (Suc x) ks))"
| "extractAt g ps so pe oe n = (n, [])"

section \<open>Range methods\<close>

text \<open>
  The methods of a range object that the program calls, after the DOM standard
  (\<open>insertNode\<close> after rangy). A method that changes the range returns the new range;
  \<open>extractContents\<close> returns the contents, the new range and the new page. \<open>None\<close> is a
  thrown exception: a boundary that is not in the document, or a node without a parent
  where one is needed. The ranges stored in the selection are not adjusted by these
  methods.
\<close>

definition collapsed :: "range \<Rightarrow> bool" where
  "collapsed rg = (startContainer rg = endContainer rg \<and> startOffset rg = endOffset rg)"

definition collapsedAt :: "ident \<Rightarrow> nat \<Rightarrow> range" where
  "collapsedAt n off = \<lparr>startContainer = n, startOffset = off, endContainer = n, endOffset = off\<rparr>"

text \<open>The boundary just after a node: its parent and its index plus one.\<close>

definition pointAfter :: "node \<Rightarrow> ident \<Rightarrow> (ident \<times> nat) option" where
  "pointAfter r n =
     (case (path_of n r, parentNode r n) of
        (Some p, Some m) \<Rightarrow> Some (nid m, Suc (last p))
      | _ \<Rightarrow> None)"

definition pointBefore :: "node \<Rightarrow> ident \<Rightarrow> (ident \<times> nat) option" where
  "pointBefore r n =
     (case (path_of n r, parentNode r n) of
        (Some p, Some m) \<Rightarrow> Some (nid m, last p)
      | _ \<Rightarrow> None)"

text \<open>\<open>range.setEndAfter(node)\<close>; a start that would lie after the new end moves to it.\<close>

definition setEndAfter :: "node \<Rightarrow> ident \<Rightarrow> range \<Rightarrow> range option" where
  "setEndAfter r n rg =
     (case pointAfter r n of
        None \<Rightarrow> None
      | Some (m, off) \<Rightarrow>
          (case (point_pos r (startContainer rg) (startOffset rg), point_pos r m off) of
             (Some ps, Some pe) \<Rightarrow>
               Some (if lex_less pe ps then collapsedAt m off
                     else rg\<lparr>endContainer := m, endOffset := off\<rparr>)
           | _ \<Rightarrow> None))"

definition collapseAfter :: "node \<Rightarrow> ident \<Rightarrow> range option" where
  "collapseAfter r n = map_option (\<lambda>(m, off). collapsedAt m off) (pointAfter r n)"

text \<open>
  \<open>range.extractContents()\<close>: nothing for a collapsed range; otherwise the contents
  leave the document and the range collapses: to its start when the start container is
  an inclusive ancestor of the end container, and else to the point after the ancestor of
  the start container that is a child of the common ancestor.
\<close>

definition is_prefix :: "nat list \<Rightarrow> nat list \<Rightarrow> bool" where
  "is_prefix p q = (take (length p) q = p)"

definition extractContents :: "range \<Rightarrow> page \<Rightarrow> (node list \<times> range \<times> page) option" where
  "extractContents rg d =
     (if collapsed rg then Some ([], rg, d)
      else (case (path_of (startContainer rg) (root d), path_of (endContainer rg) (root d)) of
              (Some ps, Some pe) \<Rightarrow>
                (case extractAt (\<lambda>i. fresh d + i) ps (startOffset rg) pe (endOffset rg) (root d) of
                   (r', frag) \<Rightarrow>
                     (let c = common_prefix ps pe;
                          rg' = (if is_prefix ps pe
                                 then Some (collapsedAt (startContainer rg) (startOffset rg))
                                 else map_option (\<lambda>n. collapsedAt (nid n) (Suc (ps ! length c)))
                                        (node_at c (root d)))
                      in map_option
                           (\<lambda>x. (frag, x, d\<lparr>root := r', fresh := fresh d + fresh d\<rparr>)) rg'))
            | _ \<Rightarrow> None))"

text \<open>
  \<open>range.insertNode(node)\<close> of a rangy range, for a node or the nodes of a fragment, at
  the start of the range. In a text node the nodes go after the text node when the offset
  is its length, before it when the offset is 0, and otherwise the text node is split at
  the offset (the part after it is a new text node) and the nodes go between the parts; an
  offset beyond the length is an exception. In an element they go before the child at the
  offset. The range after the call is not modelled: every caller sets the range anew or
  drops it.
\<close>

fun splitText :: "nat \<Rightarrow> ident \<Rightarrow> node list \<Rightarrow> node \<Rightarrow> node list" where
  "splitText off f new (Text i s) = Text i (take off s) # new @ [Text f (drop off s)]"
| "splitText off f new (Elem i t a c ks) = [Elem i t a c ks]"

fun insertChildren :: "nat \<Rightarrow> node list \<Rightarrow> node \<Rightarrow> node" where
  "insertChildren off new (Text i s) = Text i s"
| "insertChildren off new (Elem i t a c ks) = Elem i t a c (take off ks @ new @ drop off ks)"

definition insertNode :: "node list \<Rightarrow> range \<Rightarrow> page \<Rightarrow> page option" where
  "insertNode new rg d =
     (case (path_of (startContainer rg) (root d), getNode (root d) (startContainer rg)) of
        (Some p, Some n) \<Rightarrow>
          (if nodeType n = 3
           then (case parentNode (root d) (startContainer rg) of
                   None \<Rightarrow> None
                 | Some m \<Rightarrow>
                     (if startOffset rg = nodeLength n
                      then Some (d\<lparr>root := splice_at p (\<lambda>x. x # new) (root d)\<rparr>)
                      else if startOffset rg = 0
                      then Some (d\<lparr>root := splice_at p (\<lambda>x. new @ [x]) (root d)\<rparr>)
                      else if nodeLength n < startOffset rg then None
                      else Some (d\<lparr>root := splice_at p
                                            (splitText (startOffset rg) (fresh d) new) (root d),
                                   fresh := Suc (fresh d)\<rparr>)))
           else Some (d\<lparr>root := modify_at p (insertChildren (startOffset rg) new) (root d)\<rparr>))
      | _ \<Rightarrow> None)"

text \<open>\<open>document.createTextNode(content)\<close>.\<close>

definition createTextNode :: "string \<Rightarrow> page \<Rightarrow> node \<times> page" where
  "createTextNode content d = (Text (fresh d) content, d\<lparr>fresh := Suc (fresh d)\<rparr>)"

text \<open>\<open>selection.setSingleRange(range)\<close>: the range becomes the only one, forwards.\<close>

definition setSingleRange :: "range \<Rightarrow> selection \<Rightarrow> selection" where
  "setSingleRange rg s =
     \<lparr>anchorNode = Some (startContainer rg), anchorOffset = startOffset rg,
      focusNode = Some (endContainer rg), focusOffset = endOffset rg, ranges = [rg]\<rparr>"

section \<open>Clearing the formatting of the selection\<close>

text \<open>
  The search for the containing element:
  \<open>while (parent && parent.parentNode != limitNode) parent = parent.parentNode\<close>, along
  the inclusive ancestors of the common ancestor container. It ends at the child of the
  limit node, or at \<open>null\<close> above the root.
\<close>

fun childOfLimit :: "ident \<Rightarrow> node list \<Rightarrow> ident option" where
  "childOfLimit limit [] = None"
| "childOfLimit limit [n] = None"
| "childOfLimit limit (n # m # ns) =
     (if nid m = limit then Some (nid n) else childOfLimit limit (m # ns))"

text \<open>
  The first half of \<open>selectionClearFormatting\<close>: the contents of a copy of range 0 are
  extracted; when they serialise to nothing, the range is expanded, made the selection
  and extracted again. The result is the text of the contents
  (\<open>$('<div/>').append(html).text()\<close>: the character data, without any markup), the
  range and the page. \<open>rangeExpandToParent\<close> is not in the sources; it is a parameter.
\<close>

definition flattenText :: "node list \<Rightarrow> string" where
  "flattenText frag = concat (map textContent frag)"

definition clearFormattingExtract ::
  "(page \<Rightarrow> range \<Rightarrow> range) \<Rightarrow> range \<Rightarrow> page \<Rightarrow> (string \<times> range \<times> page) option" where
  "clearFormattingExtract rangeExpandToParent rg d =
     (case extractContents rg d of
        None \<Rightarrow> None
      | Some (content, rg1, d1) \<Rightarrow>
          (if fragmentToHtml content = []
           then (let rg2 = rangeExpandToParent d1 rg1;
                     d2 = d1\<lparr>sel := setSingleRange rg2 (sel d1)\<rparr>
                 in (case extractContents rg2 d2 of
                       None \<Rightarrow> None
                     | Some (content', rg3, d3) \<Rightarrow> Some (flattenText content', rg3, d3)))
           else Some (flattenText content, rg1, d1)))"

text \<open>
  The second half: with a containing element, the end of the range is set after it, the
  contents (everything of the element after the range's start) are extracted and
  inserted just after the element, and the text goes in just after the element, before
  them; without one, the text is inserted at the range.
\<close>

definition clearFormattingPlace :: "ident \<Rightarrow> string \<Rightarrow> range \<Rightarrow> page \<Rightarrow> page option" where
  "clearFormattingPlace limitNode content rg d =
     (case commonAncestorContainer (root d) rg of
        None \<Rightarrow> None
      | Some ca \<Rightarrow>
          (case childOfLimit limitNode (inclusiveAncestors (root d) (nid ca)) of
             Some parent \<Rightarrow>
               (case setEndAfter (root d) parent rg of
                  None \<Rightarrow> None
                | Some rg1 \<Rightarrow>
                    (case extractContents rg1 d of
                       None \<Rightarrow> None
                     | Some (contentAfterRangeStart, rg2, d2) \<Rightarrow>
                         (case collapseAfter (root d2) parent of
                            None \<Rightarrow> None
                          | Some rg3 \<Rightarrow>
                              (case insertNode contentAfterRangeStart rg3 d2 of
                                 None \<Rightarrow> None
                               | Some d4 \<Rightarrow>
                                   (case collapseAfter (root d4) parent of
                                      None \<Rightarrow> None
                                    | Some rg5 \<Rightarrow>
                                        (case createTextNode content d4 of
                                           (t, d5) \<Rightarrow> insertNode [t] rg5 d5))))))
           | None \<Rightarrow>
               (case createTextNode content d of
                  (t, d1) \<Rightarrow> insertNode [t] rg d1)))"

text \<open>\<open>selectionClearFormatting(limitNode, selection)\<close>, for the current selection.\<close>

definition selectionClearFormatting ::
  "(page \<Rightarrow> range \<Rightarrow> range) \<Rightarrow> ident \<Rightarrow> page \<Rightarrow> page option" where
  "selectionClearFormatting rangeExpandToParent limitNode d =
     (case getAllRanges d of
        [] \<Rightarrow> Some d
      | rg # _ \<Rightarrow>
          (case clearFormattingExtract rangeExpandToParent rg d of
             None \<Rightarrow> None
           | Some (content, rg1, d1) \<Rightarrow> clearFormattingPlace limitNode content rg1 d1))"

text \<open>\<open><div><p>ABC</p></div>\<close> with \<open>B\<close> selected; the limit node is the \<open>div\<close>.\<close>

definition page_ABC :: page where
  "page_ABC =
     \<lparr>root = Elem 1 ''div'' [] [] [Elem 2 ''p'' [] [] [Text 3 ''ABC'']],
      sel = \<lparr>anchorNode = Some 3, anchorOffset = 1, focusNode = Some 3, focusOffset = 2,
             ranges = [\<lparr>startContainer = 3, startOffset = 1,
                        endContainer = 3, endOffset = 2\<rparr>]\<rparr>,
      savedSelection = None, fresh = 4\<rparr>"

text \<open>\<open><div><p>A<b>x<i>B</i>y</b>C</p><p>D</p></div>\<close> with \<open>B\<close> selected.\<close>

definition page_nested :: page where
  "page_nested =
     \<lparr>root = Elem 1 ''div'' [] []
               [Elem 2 ''p'' [] []
                  [Text 3 ''A'',
                   Elem 4 ''b'' [] [] [Text 5 ''x'', Elem 6 ''i'' [] [] [Text 7 ''B''], Text 8 ''y''],
                   Text 9 ''C''],
                Elem 10 ''p'' [] [] [Text 11 ''D'']],
      sel = \<lparr>anchorNode = Some 7, anchorOffset = 0, focusNode = Some 7, focusOffset = 1,
             ranges = [\<lparr>startContainer = 7, startOffset = 0,
                        endContainer = 7, endOffset = 1\<rparr>]\<rparr>,
      savedSelection = None, fresh = 12\<rparr>"

text \<open>\<open><div><p>A<b>B</b>C</p></div>\<close>, selected from the end of \<open>A\<close> to the start of \<open>C\<close>.\<close>

definition page_bold :: page where
  "page_bold =
     \<lparr>root = Elem 1 ''div'' [] []
               [Elem 2 ''p'' [] [] [Text 3 ''A'', Elem 4 ''b'' [] [] [Text 5 ''B''], Text 6 ''C'']],
      sel = \<lparr>anchorNode = Some 3, anchorOffset = 1, focusNode = Some 6, focusOffset = 0,
             ranges = [\<lparr>startContainer = 3, startOffset = 1,
                        endContainer = 6, endOffset = 0\<rparr>]\<rparr>,
      savedSelection = None, fresh = 7\<rparr>"
section \<open>Saving and restoring the selection\<close>

text \<open>
  \<open>rangy.saveSelection()\<close> puts an invisible marker element at each boundary of each
  range (the end first, one marker for a collapsed range), sets the ranges to lie between
  their markers and returns the \<open>id\<close> attributes of the markers.
  \<open>rangy.restoreSelection(saved)\<close> finds the markers by their \<open>id\<close>, sets the ranges to
  where the markers are and removes the markers. The direction of the selection, the
  normalisation of the boundaries of a restored range and the merging of the text nodes
  next to a removed marker are not modelled; none of them shows in the markup.
\<close>

fun digitsOf :: "nat \<Rightarrow> string" where
  "digitsOf n =
     (if n < 10 then [char_of (48 + n)] else digitsOf (n div 10) @ [char_of (48 + n mod 10)])"

definition markerId :: "nat \<Rightarrow> string" where
  "markerId n = ''selectionBoundary_'' @ digitsOf n"

definition markerElement :: "nat \<Rightarrow> node" where
  "markerElement f =
     Elem f ''span'' [(''id'', markerId f), (''style'', ''line-height: 0; display: none;'')]
       [''rangySelectionBoundary'']
       [Text (Suc f) [char_of (239::nat), char_of (187::nat), char_of (191::nat)]]"

text \<open>Insert a marker at the start (or the end) of a range; the marker's \<open>id\<close> and the
  new page.\<close>

definition insertRangeBoundaryMarker :: "range \<Rightarrow> bool \<Rightarrow> page \<Rightarrow> (string \<times> page) option" where
  "insertRangeBoundaryMarker rg atStart d =
     (let f = fresh d;
          boundaryRange = (if atStart then collapsedAt (startContainer rg) (startOffset rg)
                           else collapsedAt (endContainer rg) (endOffset rg))
      in map_option (\<lambda>d'. (markerId f, d'))
           (insertNode [markerElement f] boundaryRange (d\<lparr>fresh := f + 2\<rparr>)))"

text \<open>\<open>document.getElementById(id)\<close>: the first element in document order with that
  \<open>id\<close> attribute.\<close>

definition getElementById :: "node \<Rightarrow> string \<Rightarrow> node option" where
  "getElementById r v =
     find (\<lambda>n. nodeType n = 1 \<and> map_of (attributes n) ''id'' = Some v) (nodes_of r)"

fun saveRanges :: "range list \<Rightarrow> page \<Rightarrow> (savedRange list \<times> page) option" where
  "saveRanges [] d = Some ([], d)"
| "saveRanges (rg # rgs) d =
     (case saveRanges rgs d of
        None \<Rightarrow> None
      | Some (infos, d1) \<Rightarrow>
          (if collapsed rg
           then (case insertRangeBoundaryMarker rg False d1 of
                   None \<Rightarrow> None
                 | Some (m, d2) \<Rightarrow> Some (SavedCollapsed m # infos, d2))
           else (case insertRangeBoundaryMarker rg False d1 of
                   None \<Rightarrow> None
                 | Some (e, d2) \<Rightarrow>
                     (case insertRangeBoundaryMarker rg True d2 of
                        None \<Rightarrow> None
                      | Some (s, d3) \<Rightarrow> Some (SavedRange s e # infos, d3)))))"

text \<open>The range between its markers, as \<open>saveSelection\<close> sets it when all markers are
  in place.\<close>

definition rangeBetweenMarkers :: "node \<Rightarrow> savedRange \<Rightarrow> range option" where
  "rangeBetweenMarkers r info =
     (case info of
        SavedCollapsed m \<Rightarrow>
          (case getElementById r m of
             None \<Rightarrow> None
           | Some me \<Rightarrow> map_option (\<lambda>(n, off). collapsedAt n off) (pointBefore r (nid me)))
      | SavedRange s e \<Rightarrow>
          (case (getElementById r s, getElementById r e) of
             (Some se, Some ee) \<Rightarrow>
               (case (pointAfter r (nid se), pointBefore r (nid ee)) of
                  (Some (sn, so), Some (en, eo)) \<Rightarrow>
                    Some \<lparr>startContainer = sn, startOffset = so,
                          endContainer = en, endOffset = eo\<rparr>
                | _ \<Rightarrow> None)
           | _ \<Rightarrow> None))"

fun those :: "'a option list \<Rightarrow> 'a list option" where
  "those [] = Some []"
| "those (x # xs) =
     (case x of None \<Rightarrow> None | Some y \<Rightarrow> map_option ((#) y) (those xs))"

definition selectionOfRanges :: "range list \<Rightarrow> selection" where
  "selectionOfRanges rgs =
     (case rgs of
        [] \<Rightarrow> \<lparr>anchorNode = None, anchorOffset = 0, focusNode = None, focusOffset = 0,
               ranges = []\<rparr>
      | rg # _ \<Rightarrow>
          \<lparr>anchorNode = Some (startContainer rg), anchorOffset = startOffset rg,
           focusNode = Some (endContainer (last rgs)), focusOffset = endOffset (last rgs),
           ranges = rgs\<rparr>)"

definition saveSelection :: "page \<Rightarrow> (savedRange list \<times> page) option" where
  "saveSelection d =
     (case saveRanges (getAllRanges d) d of
        None \<Rightarrow> None
      | Some (infos, d1) \<Rightarrow>
          (case those (map (rangeBetweenMarkers (root d1)) infos) of
             None \<Rightarrow> None
           | Some rgs \<Rightarrow> Some (infos, d1\<lparr>sel := selectionOfRanges rgs\<rparr>)))"

text \<open>Removing a child: a boundary in the parent behind the child moves one to the
  left, as the ranges of the browser do.\<close>

definition removeNode :: "ident \<Rightarrow> node \<Rightarrow> node" where
  "removeNode n r = (case path_of n r of None \<Rightarrow> r | Some p \<Rightarrow> splice_at p (\<lambda>x. []) r)"

definition shiftPoint :: "ident \<Rightarrow> nat \<Rightarrow> ident \<times> nat \<Rightarrow> ident \<times> nat" where
  "shiftPoint parent idx pt =
     (if fst pt = parent \<and> idx < snd pt then (fst pt, snd pt - 1) else pt)"

definition shiftRange :: "ident \<Rightarrow> nat \<Rightarrow> range \<Rightarrow> range" where
  "shiftRange parent idx rg =
     (case (shiftPoint parent idx (startContainer rg, startOffset rg),
            shiftPoint parent idx (endContainer rg, endOffset rg)) of
        ((sn, so), (en, eo)) \<Rightarrow>
          \<lparr>startContainer = sn, startOffset = so, endContainer = en, endOffset = eo\<rparr>)"

text \<open>Set one boundary before a marker and remove the marker; the ranges restored so
  far are adjusted. A marker that is gone leaves everything as it is.\<close>

definition takeMarker ::
  "string \<Rightarrow> node \<times> range list \<Rightarrow> ((ident \<times> nat) option \<times> node \<times> range list)" where
  "takeMarker m s =
     (case s of (r, done) \<Rightarrow>
        (case getElementById r m of
           None \<Rightarrow> (None, r, done)
         | Some me \<Rightarrow>
             (case pointBefore r (nid me) of
                None \<Rightarrow> (None, r, done)
              | Some (n, off) \<Rightarrow>
                  (Some (n, off), removeNode (nid me) r, map (shiftRange n off) done))))"

fun restoreRanges :: "savedRange list \<Rightarrow> node \<Rightarrow> node \<times> range list" where
  "restoreRanges [] r = (r, [])"
| "restoreRanges (info # infos) r =
     (case restoreRanges infos r of
        (r1, done) \<Rightarrow>
          (case info of
             SavedCollapsed m \<Rightarrow>
               (case takeMarker m (r1, done) of
                  (Some (n, off), r2, done2) \<Rightarrow> (r2, collapsedAt n off # done2)
                | (None, r2, done2) \<Rightarrow> (r2, done2))
           | SavedRange s e \<Rightarrow>
               (case takeMarker s (r1, done) of
                  (ps, r2, done2) \<Rightarrow>
                    (case takeMarker e (r2, done2) of
                       (pe, r3, done3) \<Rightarrow>
                         (case (ps, pe) of
                            (Some (sn, so), Some (en, eo)) \<Rightarrow>
                              (r3, \<lparr>startContainer = sn, startOffset = so,
                                    endContainer = en, endOffset = eo\<rparr> # done3)
                          | _ \<Rightarrow> (r3, done3))))))"

definition restoreSelection :: "savedRange list \<Rightarrow> page \<Rightarrow> page" where
  "restoreSelection infos d =
     (case restoreRanges infos (root d) of
        (r, rgs) \<Rightarrow> d\<lparr>root := r, sel := selectionOfRanges rgs\<rparr>)"

text \<open>\<open>selectionSave(overwrite)\<close> and \<open>selectionRestore()\<close>.\<close>

definition selectionSave :: "bool \<Rightarrow> page \<Rightarrow> page option" where
  "selectionSave overwrite d =
     (if savedSelection d \<noteq> None \<and> \<not> overwrite then Some d
      else (case saveSelection d of
              None \<Rightarrow> None
            | Some (infos, d') \<Rightarrow> Some (d'\<lparr>savedSelection := Some infos\<rparr>)))"

definition selectionRestore :: "page \<Rightarrow> page" where
  "selectionRestore d =
     (case savedSelection d of
        None \<Rightarrow> d
      | Some infos \<Rightarrow> (restoreSelection infos d)\<lparr>savedSelection := None\<rparr>)"

section \<open>Changing tags\<close>

text \<open>
  The selector is \<open>changeFrom.join(',')\<close>, a list of tag names. A tag name in a selector
  matches the elements with that name whatever the case of its letters; other selector
  syntax is outside this model. The empty selector (no name, or one empty name) matches
  nothing with \<open>filter\<close> and \<open>find\<close>, and \<open>parentsUntil\<close> does not filter with it.
\<close>

definition lowerChar :: "char \<Rightarrow> char" where
  "lowerChar ch =
     (if 65 \<le> (of_char ch :: nat) \<and> (of_char ch :: nat) \<le> 90
      then char_of ((of_char ch :: nat) + 32) else ch)"

definition toLowerCase :: "string \<Rightarrow> string" where
  "toLowerCase s = map lowerChar s"

definition matches :: "string list \<Rightarrow> node \<Rightarrow> bool" where
  "matches selector n =
     (nodeType n = 1 \<and> toLowerCase (tagName n) \<in> set (map toLowerCase selector))"

text \<open>\<open>parentsUntil(limit, selector)\<close>: the ancestors, the closest first, up to the limit
  element and without it, that match. \<open>find(selector)\<close>: the descendants that match, in
  document order.\<close>

definition parentsUntil :: "node \<Rightarrow> ident \<Rightarrow> ident \<Rightarrow> string list \<Rightarrow> node list" where
  "parentsUntil r n limit selector =
     filter (\<lambda>m. joinWith '','' selector = [] \<or> matches selector m)
       (takeWhile (\<lambda>m. nid m \<noteq> limit) (tl (inclusiveAncestors r n)))"

definition findIn :: "node \<Rightarrow> ident \<Rightarrow> string list \<Rightarrow> node list" where
  "findIn r n selector =
     (case getNode r n of
        None \<Rightarrow> []
      | Some m \<Rightarrow> filter (matches selector) (tl (nodes_of m)))"

text \<open>One round of the loop of \<open>selectionFindWrappingAndInnerElements\<close> for the node
  \<open>startNode\<close>: the node itself, its ancestors below the limit element and its
  descendants, where they match; \<open>filter\<close> pushes each unless it is the limit element.\<close>

definition findAround :: "node \<Rightarrow> string list \<Rightarrow> ident \<Rightarrow> ident \<Rightarrow> ident list" where
  "findAround r selector limitElement startNode =
     filter (\<lambda>i. i \<noteq> limitElement)
       (map nid
          ((case getNode r startNode of
              None \<Rightarrow> []
            | Some n \<Rightarrow> (if matches selector n then [n] else []))
           @ (if limitElement \<noteq> startNode
              then parentsUntil r startNode limitElement selector else [])
           @ findIn r startNode selector))"

text \<open>
  The loop. \<open>prevs\<close> are the sibling elements before \<open>startNode\<close> and \<open>nexts\<close> those
  after it. After a round the loop stops when \<open>startNode\<close> is the end node, when there is
  no next sibling element, and when a sibling element before the next one has the end
  node as a descendant.
\<close>

fun scanSiblings ::
  "node \<Rightarrow> string list \<Rightarrow> ident \<Rightarrow> ident \<Rightarrow> node list \<Rightarrow> ident \<Rightarrow> node list \<Rightarrow> ident list" where
  "scanSiblings r selector limitElement endNode prevs startNode nexts =
     findAround r selector limitElement startNode
     @ (if endNode = startNode then []
        else (case nexts of
                [] \<Rightarrow> []
              | nx # rest \<Rightarrow>
                  (case getNode r startNode of
                     None \<Rightarrow> []
                   | Some sn \<Rightarrow>
                       (if list_ex (\<lambda>p. contains r (nid p) endNode) (prevs @ [sn]) then []
                        else scanSiblings r selector limitElement endNode (prevs @ [sn])
                               (nid nx) rest))))"

text \<open>jQuery's \<open>prevAll()\<close>: the preceding siblings that are elements.\<close>

definition prevAll :: "node \<Rightarrow> ident \<Rightarrow> node list" where
  "prevAll r i =
     (case (path_of i r, parentNode r i) of
        (Some p, Some m) \<Rightarrow> filter (\<lambda>n. nodeType n = 1) (take (last p) (childNodes m))
      | _ \<Rightarrow> [])"

text \<open>\<open>while (node.nodeType === Node.TEXT_NODE) node = node.parentNode\<close>: the first
  inclusive ancestor that is not a text node.\<close>

definition nonTextAncestor :: "node \<Rightarrow> ident \<Rightarrow> ident option" where
  "nonTextAncestor r n =
     map_option nid (find (\<lambda>m. nodeType m \<noteq> 3) (inclusiveAncestors r n))"

text \<open>\<open>selectionFindWrappingAndInnerElements(selector, limitElement)\<close>; \<open>None\<close> is the
  exception of a boundary that is not in the document.\<close>

definition findOfRange :: "string list \<Rightarrow> ident \<Rightarrow> range \<Rightarrow> page \<times> ident list option
     \<Rightarrow> page \<times> ident list option" where
  "findOfRange selector limitElement rg s =
     (case s of (d, result) \<Rightarrow>
        (d, (case (result, nonTextAncestor (root d) (startContainer rg),
                   nonTextAncestor (root d) (endContainer rg)) of
               (Some res, Some startNode, Some endNode) \<Rightarrow>
                 Some (res @ scanSiblings (root d) selector limitElement endNode
                                (prevAll (root d) startNode) startNode
                                (nextAll (root d) startNode))
             | _ \<Rightarrow> None)))"

definition selectionFindWrappingAndInnerElements ::
  "string list \<Rightarrow> ident \<Rightarrow> page \<Rightarrow> ident list option" where
  "selectionFindWrappingAndInnerElements selector limitElement d =
     (case selectionEachRange (findOfRange selector limitElement) currentRanges (d, Some []) of
        None \<Rightarrow> None
      | Some (p, result) \<Rightarrow> result)"

text \<open>
  Modelled from the spec: \<open>elementChangeTag(elements, newTag)\<close> is not in the sources.
  The spec: rename every matched element's tag to \<open>changeTo\<close>, preserving attributes and
  children.
\<close>

fun elementChangeTag :: "ident list \<Rightarrow> string \<Rightarrow> node \<Rightarrow> node" where
  "elementChangeTag elements newTag (Text i s) = Text i s"
| "elementChangeTag elements newTag (Elem i t a c ks) =
     Elem i (if i \<in> set elements then newTag else t) a c
       (map (elementChangeTag elements newTag) ks)"

text \<open>
  \<open>limitNode.innerHTML = '<' + changeTo + '>' + limitNode.innerHTML + '</' + changeTo + '>'\<close>:
  the children of the limit node are replaced by what the browser's parser makes of the
  string. The parser is not a part of the program; it is the parameter \<open>parseHTML\<close>, which
  gets the next unused identity and the markup and gives the new nodes and the next
  unused identity.
\<close>

definition innerHTML :: "node \<Rightarrow> string" where
  "innerHTML n = concat (map outerHTML (childNodes n))"

definition setInnerHTMLWrapped ::
  "(nat \<Rightarrow> string \<Rightarrow> node list \<times> nat) \<Rightarrow> ident \<Rightarrow> string \<Rightarrow> page \<Rightarrow> page" where
  "setInnerHTMLWrapped parseHTML limitNode changeTo d =
     (case (path_of limitNode (root d), getNode (root d) limitNode) of
        (Some p, Some n) \<Rightarrow>
          (case parseHTML (fresh d)
                  (''<'' @ changeTo @ ''>'' @ innerHTML n @ ''</'' @ changeTo @ ''>'') of
             (ks, f) \<Rightarrow> d\<lparr>root := modify_at p (setChildren ks) (root d), fresh := f\<rparr>)
      | _ \<Rightarrow> d)"

text \<open>\<open>selectionChangeTags(changeTo, changeFrom, limitElement)\<close>.\<close>

definition selectionChangeTags ::
  "(nat \<Rightarrow> string \<Rightarrow> node list \<times> nat) \<Rightarrow> string \<Rightarrow> string list \<Rightarrow> ident \<Rightarrow> page
     \<Rightarrow> page option" where
  "selectionChangeTags parseHTML changeTo changeFrom limitElement d =
     (case selectionSave False d of
        None \<Rightarrow> None
      | Some d1 \<Rightarrow>
          (case selectionFindWrappingAndInnerElements changeFrom limitElement d1 of
             None \<Rightarrow> None
           | Some elements \<Rightarrow>
               Some (selectionRestore
                 (if elements \<noteq> []
                  then d1\<lparr>root := elementChangeTag elements changeTo (root d1)\<rparr>
                  else setInnerHTMLWrapped parseHTML limitElement changeTo d1))))"

text \<open>\<open><p>Hello <b>world</b></p>\<close> with \<open>world\<close> selected.\<close>

definition page_hello :: page where
  "page_hello =
     \<lparr>root = Elem 1 ''p'' [] [] [Text 2 ''Hello '', Elem 3 ''b'' [] [] [Text 4 ''world'']],
      sel = \<lparr>anchorNode = Some 4, anchorOffset = 0, focusNode = Some 4, focusOffset = 5,
             ranges = [\<lparr>startContainer = 4, startOffset = 0,
                        endContainer = 4, endOffset = 5\<rparr>]\<rparr>,
      savedSelection = None, fresh = 5\<rparr>"

section \<open>Replacing the selection within valid tags\<close>



fun removeAttr :: "string \<Rightarrow> node \<Rightarrow> node" where
  "removeAttr k (Text i s) = Text i s"
| "removeAttr k (Elem i t a c ks) =
     Elem i t (filter (\<lambda>(k', v'). k' \<noteq> k) a) c (map (removeAttr k) ks)"






text \<open>What \<open>selectionReplaceWithinValidTags\<close> returns: \<open>undefined\<close>, the array of
  \<open>selectionReplace\<close>, or the jQuery object of the split.\<close>

datatype 'x replaced = NothingReplaced | ReplacedInPlace "'x list" | ReplacedSplit jq




section \<open>Properties of the document tree\<close>

lemma path_in_Some:
  "path_in i k ks = Some p \<Longrightarrow>
     \<exists>j q. p = (k + j) # q \<and> j < length ks \<and> path_of i (ks ! j) = Some q"
proof (induction ks arbitrary: k)
  case Nil then show ?case by simp
next
  case (Cons n ns)
  show ?case
  proof (cases "path_of i n")
    case None
    with Cons.prems have "path_in i (Suc k) ns = Some p" by simp
    from Cons.IH[OF this] obtain j q where
      "p = (Suc k + j) # q" "j < length ns" "path_of i (ns ! j) = Some q" by blast
    then show ?thesis by (intro exI[of _ "Suc j"] exI[of _ q]) simp
  next
    case (Some q)
    with Cons.prems show ?thesis by (intro exI[of _ 0] exI[of _ q]) simp
  qed
qed

lemma path_of_node_at:
  "path_of i r = Some p \<Longrightarrow> \<exists>n. node_at p r = Some n \<and> nid n = i"
proof (induction p arbitrary: r)
  case Nil
  then show ?case by (cases r) (auto split: if_splits dest: path_in_Some)
next
  case (Cons k q)
  then obtain j t a c ks where r: "r = Elem j t a c ks" by (cases r) (auto split: if_splits)
  with Cons.prems have "path_in i 0 ks = Some (k # q)" by (auto split: if_splits)
  from path_in_Some[OF this] have "k < length ks" "path_of i (ks ! k) = Some q" by auto
  with Cons.IH[of "ks ! k"] r show ?case by auto
qed

lemma path_in_None: "path_in i k ks = None \<longleftrightarrow> (\<forall>n\<in>set ks. path_of i n = None)"
  by (induction ks arbitrary: k) (auto split: option.splits)


lemma path_of_None: "path_of i r = None \<longleftrightarrow> i \<notin> nid ` set (nodes_of r)"
proof (induction r)
  case (Text j s) show ?case by auto
next
  case (Elem j t a c ks)
  then show ?case by (auto simp: path_in_None)
qed

lemma path_in_first:
  "k' < length ks \<Longrightarrow> \<forall>j<k'. path_of i (ks ! j) = None \<Longrightarrow> path_of i (ks ! k') = Some q
     \<Longrightarrow> path_in i k ks = Some ((k + k') # q)"
proof (induction ks arbitrary: k k')
  case Nil then show ?case by simp
next
  case (Cons n ns)
  show ?case
  proof (cases k')
    case 0 with Cons.prems show ?thesis by simp
  next
    case (Suc m)
    with Cons.prems have n: "path_of i n = None" by auto
    from Suc Cons.prems have "m < length ns" "\<forall>j<m. path_of i (ns ! j) = None"
       "path_of i (ns ! m) = Some q" by auto
    from Cons.IH[OF this, of "Suc k"] n Suc show ?thesis by simp
  qed
qed

lemma node_at_in_nodes: "node_at p r = Some n \<Longrightarrow> n \<in> set (nodes_of r)"
proof (induction p arbitrary: r)
  case Nil then show ?case by (cases r) auto
next
  case (Cons k q)
  then obtain j t a c ks where r: "r = Elem j t a c ks" by (cases r) (auto split: if_splits)
  with Cons.prems have k: "k < length ks" "node_at q (ks ! k) = Some n" by (auto split: if_splits)
  from Cons.IH[OF k(2)] k(1) r show ?case by (auto intro!: bexI[of _ "ks ! k"])
qed

lemma distinct_child:
  assumes "distinct (map nid (nodes_of (Elem j t a c ks)))" "k < length ks"
  shows "distinct (map nid (nodes_of (ks ! k)))"
proof -
  have "distinct (concat (map (map nid \<circ> nodes_of) ks))"
    using assms(1) by (simp add: map_concat)
  then have "\<forall>ys\<in>set (map (map nid \<circ> nodes_of) ks). distinct ys"
    by (simp add: distinct_concat_iff)
  with assms(2) show ?thesis by simp
qed

lemma distinct_concat_nth_aux:
  assumes "distinct (concat xs)" "k < k'" "k' < length xs"
  shows "set (xs ! k) \<inter> set (xs ! k') = {}"
proof -
  have "xs = take k' xs @ (xs ! k') # drop (Suc k') xs"
    using assms(3) by (simp add: id_take_nth_drop)
  then have "distinct (concat (take k' xs) @ concat ((xs ! k') # drop (Suc k') xs))"
    using assms(1) by (metis concat_append)
  then have "set (concat (take k' xs)) \<inter> set (xs ! k') = {}" by auto
  moreover have "xs ! k \<in> set (take k' xs)"
    using assms(2,3) by (metis in_set_conv_nth length_take min.absorb2 nth_take less_imp_le)
  ultimately show ?thesis by auto
qed

lemma distinct_concat_nth:
  assumes "distinct (concat xs)" "k \<noteq> k'" "k < length xs" "k' < length xs"
  shows "set (xs ! k) \<inter> set (xs ! k') = {}"
proof (cases "k < k'")
  case True then show ?thesis using assms distinct_concat_nth_aux by blast
next
  case False
  then have "k' < k" using assms(2) by simp
  then show ?thesis using assms distinct_concat_nth_aux[of xs k' k] by blast
qed

lemma distinct_siblings:
  assumes "distinct (map nid (nodes_of (Elem j t a c ks)))" "k < length ks" "k' < length ks"
    "k \<noteq> k'" "n \<in> set (nodes_of (ks ! k))"
  shows "nid n \<notin> nid ` set (nodes_of (ks ! k'))"
proof -
  have d: "distinct (concat (map (map nid \<circ> nodes_of) ks))"
    using assms(1) by (simp add: map_concat)
  have "set (map (map nid \<circ> nodes_of) ks ! k) \<inter> set (map (map nid \<circ> nodes_of) ks ! k') = {}"
    using distinct_concat_nth[OF d assms(4)] assms(2,3) by simp
  with assms(2,3,5) show ?thesis by auto
qed

lemma node_at_path_of:
  "node_at p r = Some n \<Longrightarrow> distinct (map nid (nodes_of r)) \<Longrightarrow> path_of (nid n) r = Some p"
proof (induction p arbitrary: r)
  case Nil then show ?case by (cases r) auto
next
  case (Cons k q)
  then obtain j t a c ks where r: "r = Elem j t a c ks" by (cases r) (auto split: if_splits)
  with Cons.prems have k: "k < length ks" "node_at q (ks ! k) = Some n" by (auto split: if_splits)
  have nk: "n \<in> set (nodes_of (ks ! k))" using k(2) by (rule node_at_in_nodes)
  have "nid n \<noteq> j" using Cons.prems(2) nk k(1) unfolding r by (auto simp: map_concat)
  moreover have "path_of (nid n) (ks ! k) = Some q"
    using Cons.IH[OF k(2)] distinct_child[OF Cons.prems(2)[unfolded r] k(1)] by simp
  moreover have "\<forall>j'<k. path_of (nid n) (ks ! j') = None"
    using distinct_siblings[OF Cons.prems(2)[unfolded r] k(1) _ _ nk] k(1)
    by (auto simp: path_of_None)
  ultimately show ?case using path_in_first[OF k(1), of "nid n" q 0] r by simp
qed

lemma getNode_nid: "getNode r i = Some n \<Longrightarrow> nid n = i"
  unfolding getNode_def using path_of_node_at by (fastforce split: option.splits)

lemma node_at_snoc:
  "node_at (p @ [k]) r = (case node_at p r of None \<Rightarrow> None
      | Some m \<Rightarrow> if k < length (childNodes m) then Some (childNodes m ! k) else None)"
  by (induction p arbitrary: r) auto

lemma parentNode_props:
  assumes "parentNode r i = Some m"
  shows "\<exists>p. node_at p r = Some m \<and> nodeType m = 1"
proof -
  from assms obtain p where p: "path_of i r = Some p" "p \<noteq> []" "node_at (butlast p) r = Some m"
    unfolding parentNode_def by (auto split: option.splits if_splits)
  from path_of_node_at[OF p(1)] obtain n where n: "node_at p r = Some n" by blast
  from p(2) have "p = butlast p @ [last p]" by simp
  with n have "node_at (butlast p @ [last p]) r = Some n" by simp
  with p(3) have "last p < length (childNodes m)" by (simp add: node_at_snoc split: if_splits)
  then have "nodeType m = 1" by (cases m) auto
  with p(3) show ?thesis by blast
qed

lemma getNode_node_at:
  "node_at p r = Some n \<Longrightarrow> distinct (map nid (nodes_of r)) \<Longrightarrow> getNode r (nid n) = Some n"
  unfolding getNode_def by (simp add: node_at_path_of)

lemma elementOf_is_element:
  assumes "distinct (map nid (nodes_of r))" "elementOf r i = Some js" "e \<in> set js"
  shows "isElementNode r e"
proof -
  from assms(2) obtain n where n: "getNode r i = Some n"
    unfolding elementOf_def by (auto split: option.splits)
  show ?thesis
  proof (cases "nodeType n = 3")
    case True
    with n assms(2,3) obtain m where m: "parentElement r i = Some m" "e = nid m"
      unfolding elementOf_def by (auto split: option.splits)
    then have pm: "parentNode r i = Some m" "nodeType m = 1"
      unfolding parentElement_def by (auto split: option.splits if_splits)
    from parentNode_props[OF pm(1)] obtain p where "node_at p r = Some m" by blast
    from getNode_node_at[OF this assms(1)] pm(2) m(2) show ?thesis
      by (simp add: isElementNode_def)
  next
    case False
    with n assms(2,3) have e: "e = nid n" unfolding elementOf_def by auto
    from False have "nodeType n = 1" by (cases n) auto
    with n e getNode_nid[OF n] show ?thesis by (simp add: isElementNode_def)
  qed
qed


section \<open>C10: the element queries return elements\<close>

lemma text_has_parent:
  assumes "nodeType r = 1" "getNode r i = Some n" "nodeType n = 3"
  shows "\<exists>m. parentNode r i = Some m \<and> nodeType m = 1 \<and> n \<in> set (childNodes m)"
proof -
  from assms(2) obtain p where p: "path_of i r = Some p" "node_at p r = Some n"
    by (auto simp: getNode_def split: option.splits)
  have ne: "p \<noteq> []" using p(2) assms(1,3) by auto
  then have pq: "p = butlast p @ [last p]" by simp
  from p(2) have "node_at (butlast p @ [last p]) r = Some n" using pq by simp
  then obtain m where m: "node_at (butlast p) r = Some m" "last p < length (childNodes m)"
    "childNodes m ! last p = n"
    by (auto simp: node_at_snoc split: option.splits if_splits)
  have "parentNode r i = Some m" using p(1) ne m(1) by (simp add: parentNode_def)
  moreover have "nodeType m = 1" using m(2) by (cases m) auto
  moreover have "n \<in> set (childNodes m)" using m(2,3) nth_mem by blast
  ultimately show ?thesis by blast
qed

lemma elementOf_exact:
  assumes "nodeType r = 1" "getNode r i = Some n"
  shows "if nodeType n = 3
         then \<exists>m. parentNode r i = Some m \<and> nodeType m = 1 \<and> n \<in> set (childNodes m)
                \<and> elementOf r i = Some [nid m]
         else elementOf r i = Some [i]"
proof (cases "nodeType n = 3")
  case True
  from text_has_parent[OF assms True] obtain m where m: "parentNode r i = Some m"
    "nodeType m = 1" "n \<in> set (childNodes m)" by blast
  then have "elementOf r i = Some [nid m]"
    using assms(2) True by (simp add: elementOf_def parentElement_def)
  with m True show ?thesis by auto
next
  case False
  then show ?thesis using assms(2) getNode_nid[OF assms(2)] by (simp add: elementOf_def)
qed

lemma elementOf_single:
  assumes "distinct (map nid (nodes_of r))" "nodeType r = 1" "elementOf r i = Some js"
  shows "\<exists>e. js = [e] \<and> isElementNode r e"
proof -
  from assms(3) obtain n where n: "getNode r i = Some n"
    by (auto simp: elementOf_def split: option.splits)
  from elementOf_exact[OF assms(2) n] assms(3) obtain e where "js = [e]"
    by (auto split: if_splits)
  with elementOf_is_element[OF assms(1,3), of e] show ?thesis by simp
qed

lemma selectionGetElement_exact:
  assumes dist: "distinct (map nid (nodes_of (root d)))" and re: "nodeType (root d) = 1"
    and ca: "commonAncestorContainer (root d) rg = Some ca"
  shows "if nodeType ca = 3
         then \<exists>m. parentNode (root d) (nid ca) = Some m \<and> nodeType m = 1
                \<and> ca \<in> set (childNodes m) \<and> selectionGetElement d (Some rg) = Some [nid m]
         else selectionGetElement d (Some rg) = Some [nid ca]"
proof (cases "nodeType ca = 3")
  case True
  from ca obtain p where "node_at p (root d) = Some ca"
    by (auto simp: commonAncestorContainer_def split: option.splits)
  from getNode_node_at[OF this dist] have g: "getNode (root d) (nid ca) = Some ca" .
  from text_has_parent[OF re g True] obtain m where m: "parentNode (root d) (nid ca) = Some m"
    "nodeType m = 1" "ca \<in> set (childNodes m)" by blast
  then have "selectionGetElement d (Some rg) = Some [nid m]"
    using ca True by (simp add: selectionGetElement_def)
  with m True show ?thesis by auto
next
  case False
  then show ?thesis using ca by (simp add: selectionGetElement_def)
qed

text \<open>
  C10. The nodes of the document have distinct identities and the root is an element.
  Without an anchor node (no selection) \<open>selectionGetStartElement\<close> and
  \<open>selectionGetEndElement\<close> return \<open>null\<close> and do not fail. Whenever they return a
  jQuery object, and whenever \<open>selectionGetElement\<close> returns, the result holds exactly one
  node, and it is an element of the document. It is the boundary node (the start node,
  the end node, the common ancestor container of the range) when that is an element, and
  the parent of the boundary node, an element with the boundary node among its children,
  when that is a text node. The start node is the anchor node of a forward selection and
  the focus node of a backward one; the end node is the other one. Without a range
  argument \<open>selectionGetElement\<close> takes range 0 of the current selection.
\<close>

theorem selection_element_queries:
  assumes dist: "distinct (map nid (nodes_of (root d)))" and re: "nodeType (root d) = 1"
  shows "(anchorNode (sel d) = None \<longrightarrow>
            selectionGetStartElement d = Some Null \<and> selectionGetEndElement d = Some Null)
       \<and> (\<forall>js. selectionGetStartElement d = Some (JQ js) \<longrightarrow>
             (\<exists>e. js = [e] \<and> isElementNode (root d) e))
       \<and> (\<forall>js. selectionGetEndElement d = Some (JQ js) \<longrightarrow>
             (\<exists>e. js = [e] \<and> isElementNode (root d) e))
       \<and> (\<forall>rg js. selectionGetElement d rg = Some js \<longrightarrow>
             (\<exists>e. js = [e] \<and> isElementNode (root d) e))
       \<and> (\<forall>a s n. anchorNode (sel d) = Some a
             \<and> (if isBackwards d then focusNode (sel d) else Some a) = Some s
             \<and> getNode (root d) s = Some n \<longrightarrow>
             (if nodeType n = 3
              then \<exists>m. parentNode (root d) s = Some m \<and> nodeType m = 1 \<and> n \<in> set (childNodes m)
                     \<and> selectionGetStartElement d = Some (JQ [nid m])
              else selectionGetStartElement d = Some (JQ [s])))
       \<and> (\<forall>a s n. anchorNode (sel d) = Some a
             \<and> (if isBackwards d then Some a else focusNode (sel d)) = Some s
             \<and> getNode (root d) s = Some n \<longrightarrow>
             (if nodeType n = 3
              then \<exists>m. parentNode (root d) s = Some m \<and> nodeType m = 1 \<and> n \<in> set (childNodes m)
                     \<and> selectionGetEndElement d = Some (JQ [nid m])
              else selectionGetEndElement d = Some (JQ [s])))
       \<and> (\<forall>rg ca. commonAncestorContainer (root d) rg = Some ca \<longrightarrow>
             (if nodeType ca = 3
              then \<exists>m. parentNode (root d) (nid ca) = Some m \<and> nodeType m = 1
                     \<and> ca \<in> set (childNodes m) \<and> selectionGetElement d (Some rg) = Some [nid m]
              else selectionGetElement d (Some rg) = Some [nid ca]))
       \<and> (\<forall>rg rest. getAllRanges d = rg # rest \<longrightarrow>
             selectionGetElement d None = selectionGetElement d (Some rg))"
proof (intro conjI allI impI)
  assume "anchorNode (sel d) = None"
  then show "selectionGetStartElement d = Some Null" by (simp add: selectionGetStartElement_def)
next
  assume "anchorNode (sel d) = None"
  then show "selectionGetEndElement d = Some Null" by (simp add: selectionGetEndElement_def)
next
  fix js assume "selectionGetStartElement d = Some (JQ js)"
  then obtain i where "elementOf (root d) i = Some js"
    unfolding selectionGetStartElement_def by (auto split: option.splits if_splits)
  then show "\<exists>e. js = [e] \<and> isElementNode (root d) e" by (rule elementOf_single[OF dist re])
next
  fix js assume "selectionGetEndElement d = Some (JQ js)"
  then obtain i where "elementOf (root d) i = Some js"
    unfolding selectionGetEndElement_def by (auto split: option.splits if_splits)
  then show "\<exists>e. js = [e] \<and> isElementNode (root d) e" by (rule elementOf_single[OF dist re])
next
  fix rg js assume a: "selectionGetElement d rg = Some js"
  then obtain r ca where ca: "commonAncestorContainer (root d) r = Some ca"
    and r: "selectionGetElement d rg = selectionGetElement d (Some r)"
    unfolding selectionGetElement_def by (auto split: option.splits list.splits if_splits)
  from selectionGetElement_exact[OF dist re ca] a r obtain e where e: "js = [e]"
    by (auto split: if_splits)
  from ca obtain p where p: "node_at p (root d) = Some ca"
    unfolding commonAncestorContainer_def by (auto split: option.splits)
  have "isElementNode (root d) e"
  proof (cases "nodeType ca = 3")
    case True
    with selectionGetElement_exact[OF dist re ca] a r e obtain m where
      m: "parentNode (root d) (nid ca) = Some m" "nodeType m = 1" "e = nid m" by auto
    from parentNode_props[OF m(1)] obtain q where "node_at q (root d) = Some m" by blast
    from getNode_node_at[OF this dist] m(2,3) show ?thesis by (simp add: isElementNode_def)
  next
    case False
    then have "nodeType ca = 1" by (cases ca) auto
    moreover from False selectionGetElement_exact[OF dist re ca] a r e have "e = nid ca" by auto
    ultimately show ?thesis using getNode_node_at[OF p dist] by (simp add: isElementNode_def)
  qed
  with e show "\<exists>e. js = [e] \<and> isElementNode (root d) e" by blast
next
  fix a s n
  assume h: "anchorNode (sel d) = Some a
             \<and> (if isBackwards d then focusNode (sel d) else Some a) = Some s
             \<and> getNode (root d) s = Some n"
  then have "selectionGetStartElement d = map_option JQ (elementOf (root d) s)"
    by (auto simp: selectionGetStartElement_def split: if_splits)
  with elementOf_exact[OF re, of s n] h
  show "if nodeType n = 3
        then \<exists>m. parentNode (root d) s = Some m \<and> nodeType m = 1 \<and> n \<in> set (childNodes m)
               \<and> selectionGetStartElement d = Some (JQ [nid m])
        else selectionGetStartElement d = Some (JQ [s])"
    by (auto split: if_splits)
next
  fix a s n
  assume h: "anchorNode (sel d) = Some a
             \<and> (if isBackwards d then Some a else focusNode (sel d)) = Some s
             \<and> getNode (root d) s = Some n"
  then have "selectionGetEndElement d = map_option JQ (elementOf (root d) s)"
    by (auto simp: selectionGetEndElement_def split: if_splits)
  with elementOf_exact[OF re, of s n] h
  show "if nodeType n = 3
        then \<exists>m. parentNode (root d) s = Some m \<and> nodeType m = 1 \<and> n \<in> set (childNodes m)
               \<and> selectionGetEndElement d = Some (JQ [nid m])
        else selectionGetEndElement d = Some (JQ [s])"
    by (auto split: if_splits)
next
  fix rg ca assume "commonAncestorContainer (root d) rg = Some ca"
  then show "if nodeType ca = 3
        then \<exists>m. parentNode (root d) (nid ca) = Some m \<and> nodeType m = 1
               \<and> ca \<in> set (childNodes m) \<and> selectionGetElement d (Some rg) = Some [nid m]
        else selectionGetElement d (Some rg) = Some [nid ca]"
    by (rule selectionGetElement_exact[OF dist re])
next
  fix rg rest assume "getAllRanges d = rg # rest"
  then show "selectionGetElement d None = selectionGetElement d (Some rg)"
    by (simp add: selectionGetElement_def)
qed

theorem selection_element_queries_witness:
  "distinct (map nid (nodes_of (root page_abc))) \<and> nodeType (root page_abc) = 1
   \<and> getNode (root page_abc) 2 = Some (Text 2 ''abc'')
   \<and> parentNode (root page_abc) 2 = Some (root page_abc)
   \<and> selectionGetStartElement page_abc = Some (JQ [1])
   \<and> selectionGetEndElement page_abc = Some (JQ [1])
   \<and> selectionGetElement page_abc None = Some [1]
   \<and> isElementNode (root page_abc) 1"
proof -
  have d: "distinct (map nid (nodes_of (root page_abc)))" by code_simp
  have re: "nodeType (root page_abc) = 1" by code_simp
  have n: "getNode (root page_abc) 2 = Some (Text 2 ''abc'')" by code_simp
  have p: "parentNode (root page_abc) 2 = Some (root page_abc)" by code_simp
  have s: "selectionGetStartElement page_abc = Some (JQ [1])" by code_simp
  have e: "selectionGetEndElement page_abc = Some (JQ [1])" by code_simp
  have g: "selectionGetElement page_abc None = Some [1]" by code_simp
  from selection_element_queries[OF d re] s have "isElementNode (root page_abc) 1" by auto
  with d re n p s e g show ?thesis by simp
qed

section \<open>The calls of selectionEachRange\<close>

lemma trace_upto_Suc:
  "trace_upto gar cb s (Suc n) =
     trace_upto gar cb s n @ [(gar (state_after gar cb s n) ! n, state_after gar cb s n)]"
  by (simp add: trace_upto_def)

lemma eachRange_from_trace_aux:
  assumes "eachRange_from g0 c0 i0 st0 = Some res0"
  shows "(g0 = gar \<circ> fst \<and> c0 = traced cb \<and> st0 = (state_after gar cb s i0, trace_upto gar cb s i0)) \<longrightarrow>
     (\<exists>n\<ge>i0. res0 = (state_after gar cb s n, trace_upto gar cb s n)
        \<and> (\<forall>k. i0 \<le> k \<and> k < n \<longrightarrow> k < length (gar (state_after gar cb s k)))
        \<and> length (gar (state_after gar cb s n)) \<le> n)"
proof (rule eachRange_from.raw_induct[where P = "\<lambda>g c i st res.
     (g = gar \<circ> fst \<and> c = traced cb \<and> st = (state_after gar cb s i, trace_upto gar cb s i)) \<longrightarrow>
     (\<exists>n\<ge>i. res = (state_after gar cb s n, trace_upto gar cb s n)
        \<and> (\<forall>k. i \<le> k \<and> k < n \<longrightarrow> k < length (gar (state_after gar cb s k)))
        \<and> length (gar (state_after gar cb s n)) \<le> n)", OF _ assms], goal_cases)
  case (1 rec g c i st res)
  show ?case
  proof (intro impI, elim conjE)
    assume g: "g = gar \<circ> fst" and c: "c = traced cb"
      and st: "st = (state_after gar cb s i, trace_upto gar cb s i)"
    show "\<exists>n\<ge>i. res = (state_after gar cb s n, trace_upto gar cb s n)
        \<and> (\<forall>k. i \<le> k \<and> k < n \<longrightarrow> k < length (gar (state_after gar cb s k)))
        \<and> length (gar (state_after gar cb s n)) \<le> n"
    proof (cases "i < length (gar (state_after gar cb s i))")
      case True
      have step: "c (g st ! i) st = (state_after gar cb s (Suc i), trace_upto gar cb s (Suc i))"
        unfolding g c st by (simp add: traced_def trace_upto_Suc)
      have "rec g c (Suc i) (c (g st ! i) st) = Some res"
        using 1(2) True unfolding g st by simp
      then have "(g = gar \<circ> fst \<and> c = traced cb \<and>
          c (g st ! i) st = (state_after gar cb s (Suc i), trace_upto gar cb s (Suc i))) \<longrightarrow>
         (\<exists>n\<ge>Suc i. res = (state_after gar cb s n, trace_upto gar cb s n)
           \<and> (\<forall>k. Suc i \<le> k \<and> k < n \<longrightarrow> k < length (gar (state_after gar cb s k)))
           \<and> length (gar (state_after gar cb s n)) \<le> n)"
        by (rule 1(1))
      with g c step obtain n where n: "n \<ge> Suc i"
         "res = (state_after gar cb s n, trace_upto gar cb s n)"
         "\<forall>k. Suc i \<le> k \<and> k < n \<longrightarrow> k < length (gar (state_after gar cb s k))"
         "length (gar (state_after gar cb s n)) \<le> n"
        by blast
      have "\<forall>k. i \<le> k \<and> k < n \<longrightarrow> k < length (gar (state_after gar cb s k))"
      proof (intro allI impI)
        fix k assume "i \<le> k \<and> k < n"
        then show "k < length (gar (state_after gar cb s k))"
          using True n(3) by (cases "k = i") auto
      qed
      with n show ?thesis by (intro exI[of _ n]) simp
    next
      case False
      then have "res = st" using 1(2) unfolding g st by simp
      with False st show ?thesis by (intro exI[of _ i]) simp
    qed
  qed
qed

lemma eachRange_from_trace:
  assumes "eachRange_from (gar \<circ> fst) (traced cb) 0 (s, []) = Some res"
  shows "\<exists>n. res = (state_after gar cb s n, trace_upto gar cb s n)
        \<and> (\<forall>k<n. k < length (gar (state_after gar cb s k)))
        \<and> length (gar (state_after gar cb s n)) \<le> n"
  using eachRange_from_trace_aux[OF assms, of gar cb s] by (simp add: trace_upto_def)

lemma eachRange_from_terminates:
  assumes "\<And>r s. length (g (c r s)) = length (g s)"
  shows "\<exists>res. eachRange_from g c i st = Some res"
proof (induction "length (g st) - i" arbitrary: i st)
  case 0
  then show ?case by (subst eachRange_from.simps) simp
next
  case (Suc m)
  then have lt: "i < length (g st)" by simp
  have "m = length (g (c (g st ! i) st)) - Suc i" using Suc(2) assms by simp
  from Suc(1)[OF this] obtain res where
    "eachRange_from g c (Suc i) (c (g st ! i) st) = Some res" by blast
  with lt show ?case by (subst eachRange_from.simps) simp
qed

lemma state_after_length:
  assumes "\<And>r s. length (gar (cb r s)) = length (gar s)"
  shows "length (gar (state_after gar cb s k)) = length (gar s)"
  by (induction k) (simp_all add: assms)

text \<open>
  What the loop does for any callback. In round \<open>k\<close> the callback gets the range at index
  \<open>k\<close> of the list fetched from the state that the previous round left (the list is never
  cached), and the loop stops at the first index beyond the current list. When the
  callback leaves the number of ranges as it is, the loop ends after exactly one call for
  each range.
\<close>

lemma selectionEachRange_calls:
  fixes gar :: "'s \<Rightarrow> 'r list" and cb :: "'r \<Rightarrow> 's \<Rightarrow> 's"
  shows
  "(\<forall>s' log. selectionEachRange (traced cb) (gar \<circ> fst) (s, []) = Some (s', log) \<longrightarrow>
       s' = state_after gar cb s (length log)
     \<and> log = map (\<lambda>k. (gar (state_after gar cb s k) ! k, state_after gar cb s k)) [0..<length log]
     \<and> (\<forall>k<length log. k < length (gar (state_after gar cb s k)))
     \<and> length (gar s') \<le> length log)
   \<and> ((\<forall>r t. length (gar (cb r t)) = length (gar t)) \<longrightarrow>
       (\<exists>s' log. selectionEachRange (traced cb) (gar \<circ> fst) (s, []) = Some (s', log)
          \<and> length log = length (gar s)))"
proof (rule conjI)
  show "\<forall>s' log. selectionEachRange (traced cb) (gar \<circ> fst) (s, []) = Some (s', log) \<longrightarrow>
       s' = state_after gar cb s (length log)
     \<and> log = map (\<lambda>k. (gar (state_after gar cb s k) ! k, state_after gar cb s k)) [0..<length log]
     \<and> (\<forall>k<length log. k < length (gar (state_after gar cb s k)))
     \<and> length (gar s') \<le> length log"
  proof (intro allI impI)
    fix s' log
    assume a: "selectionEachRange (traced cb) (gar \<circ> fst) (s, []) = Some (s', log)"
    then have "eachRange_from (gar \<circ> fst) (traced cb) 0 (s, []) = Some (s', log)"
      by (simp add: selectionEachRange_def)
    from eachRange_from_trace[OF this] obtain n where
      n: "(s', log) = (state_after gar cb s n, trace_upto gar cb s n)"
         "\<forall>k<n. k < length (gar (state_after gar cb s k))"
         "length (gar (state_after gar cb s n)) \<le> n"
      by blast
    then have len: "length log = n" by (auto simp: trace_upto_def)
    have "s' = state_after gar cb s (length log)" using n(1) len by simp
    moreover have "log = map (\<lambda>k. (gar (state_after gar cb s k) ! k, state_after gar cb s k)) [0..<length log]"
      using n(1) len by (simp add: trace_upto_def)
    moreover have "\<forall>k<length log. k < length (gar (state_after gar cb s k))" using n(2) len by simp
    moreover have "length (gar s') \<le> length log" using n(1,3) len by simp
    ultimately show "s' = state_after gar cb s (length log)
     \<and> log = map (\<lambda>k. (gar (state_after gar cb s k) ! k, state_after gar cb s k)) [0..<length log]
     \<and> (\<forall>k<length log. k < length (gar (state_after gar cb s k)))
     \<and> length (gar s') \<le> length log" by blast
  qed
next
  show "(\<forall>r t. length (gar (cb r t)) = length (gar t)) \<longrightarrow>
       (\<exists>s' log. selectionEachRange (traced cb) (gar \<circ> fst) (s, []) = Some (s', log)
          \<and> length log = length (gar s))"
  proof (rule impI)
  assume pres: "\<forall>r t. length (gar (cb r t)) = length (gar t)"
  have "\<And>r st. length ((gar \<circ> fst) (traced cb r st)) = length ((gar \<circ> fst) st)"
    using pres by (auto simp: traced_def split: prod.splits)
  from eachRange_from_terminates[of "gar \<circ> fst" "traced cb" 0 "(s, [])", OF this]
  obtain res where r: "eachRange_from (gar \<circ> fst) (traced cb) 0 (s, []) = Some res"
    by blast
  from eachRange_from_trace[OF this] obtain n where
    n: "res = (state_after gar cb s n, trace_upto gar cb s n)"
       "\<forall>k<n. k < length (gar (state_after gar cb s k))"
       "length (gar (state_after gar cb s n)) \<le> n"
    by blast
  have eq: "\<And>k. length (gar (state_after gar cb s k)) = length (gar s)"
    using state_after_length[of gar cb] pres by blast
  have "n \<le> length (gar s)"
  proof (cases n)
    case 0 then show ?thesis by simp
  next
    case (Suc m)
    with n(2) have "m < length (gar (state_after gar cb s m))" by simp
    with eq Suc show ?thesis by simp
  qed
  moreover have "length (gar s) \<le> n" using n(3) eq by simp
  ultimately have "length (trace_upto gar cb s n) = length (gar s)" by (simp add: trace_upto_def)
  with r n(1) show "\<exists>s' log. selectionEachRange (traced cb) (gar \<circ> fst) (s, []) = Some (s', log)
          \<and> length log = length (gar s)"
    by (simp add: selectionEachRange_def)
  qed
qed


text \<open>
  C1. The loop counts the rounds and indexes the list it fetches anew in each round, so a
  change of the list by the callback shifts the ranges under the index. On
  \<open><div><p>ab</p><p>cd</p></div>\<close> with two ranges, a callback that removes the range it
  is given is called once, with the first range; the list fetched for the second round
  holds only the second range, at index 0, and the loop ends at index 1. The second range
  stays in the selection and is never handed to the callback: not every range of the
  current range set is visited once.
\<close>

theorem selectionEachRange_skips_range:
  "selectionEachRange (traced removeOwnRange) (getAllRanges \<circ> fst) (page_two, []) =
     Some (removeOwnRange (getAllRanges page_two ! 0) page_two,
           [(getAllRanges page_two ! 0, page_two)])
   \<and> length (getAllRanges page_two) = 2
   \<and> getAllRanges (removeOwnRange (getAllRanges page_two ! 0) page_two)
       = [getAllRanges page_two ! 1]"
  by code_simp

section \<open>C8: constraining the selection\<close>

lemma fold_remove1_filter:
  assumes "\<And>x. P x \<Longrightarrow> x \<notin> set pre'"
  shows "fold (\<lambda>x ys. if P x then remove1 x ys else ys) xs (pre' @ xs) = pre' @ filter (\<lambda>x. \<not> P x) xs"
  using assms
proof (induction xs arbitrary: pre')
  case Nil then show ?case by simp
next
  case (Cons x xs)
  show ?case
  proof (cases "P x")
    case True
    then have "x \<notin> set pre'" using Cons.prems by blast
    then have "remove1 x (pre' @ x # xs) = pre' @ xs" by (simp add: remove1_append)
    with True Cons.IH[of pre'] Cons.prems show ?thesis by simp
  next
    case False
    have "\<And>y. P y \<Longrightarrow> y \<notin> set (pre' @ [x])" using Cons.prems False by auto
    from Cons.IH[OF this] False show ?thesis by simp
  qed
qed

lemma fold_removeRange:
  "fold (\<lambda>rg s. if P rg then removeRange rg s else s) xs s
     = s\<lparr>ranges := fold (\<lambda>x ys. if P x then remove1 x ys else ys) xs (ranges s)\<rparr>"
  by (induction xs arbitrary: s) (auto simp: removeRange_def)

text \<open>
  C8, as amended. \<open>selectionConstrain\<close> removes exactly the ranges whose common ancestor
  (the parent, for a text node) is neither the element nor inside it; the other ranges stay
  in place and in order, and the document is not touched. There is no fallback after the
  removal.
\<close>

theorem selectionConstrain_filters:
  "getAllRanges (selectionConstrain element d)
      = filter (\<lambda>rg. \<not> rangeOutside (root d) element rg) (getAllRanges d)
   \<and> root (selectionConstrain element d) = root d"
  using fold_remove1_filter[of "rangeOutside (root d) element" "[]" "getAllRanges d"]
  by (simp add: selectionConstrain_def fold_removeRange getAllRanges_def)

text \<open>
  The claim as stated fails: when the only range lies outside the element, the selection
  is left without a range and no collapsed range is placed at the element's start.
\<close>

theorem selectionConstrain_no_fallback:
  "getAllRanges (selectionConstrain 2 (page_two\<lparr>sel := (sel page_two)\<lparr>ranges := [getAllRanges page_two ! 1]\<rparr>\<rparr>)) = []"
  by code_simp


section \<open>C7: the caret at the end of an element\<close>

text \<open>
  C7. In \<open><p>abc</p>\<close> with \<open>bc\<close> selected forwards, the end of the selection in document
  order is offset 3 of the text node, which is the length of its text, and the node has no
  next sibling; \<open>selectionAtEndOfElement\<close> still answers \<open>false\<close>, because it compares the
  anchor offset 1 with the length.
\<close>

theorem selectionAtEndOfElement_uses_start_offset:
  "\<not> isBackwards page_abc
   \<and> focusNode (sel page_abc) = Some 2 \<and> focusOffset (sel page_abc) = 3
   \<and> map_option (length \<circ> textContent) (getNode (root page_abc) 2) = Some 3
   \<and> nextSibling (root page_abc) 2 = None
   \<and> selectionAtEndOfElement page_abc = Some False"
  by code_simp

section \<open>C9: the result of selectionReplace\<close>

text \<open>
  C9. With a \<open>rangeReplace\<close> that reports one inserted node for each range, and a
  selection of one range, \<open>selectionReplace\<close> returns the empty list.
\<close>

theorem selectionReplace_returns_nothing:
  "selectionReplace (\<lambda>html rg p. ([html], p)) (7::nat) currentRanges page_abc = Some ([], page_abc)
   \<and> length (getAllRanges page_abc) = 1"
  by code_simp

section \<open>Identities, heads and class operations\<close>

lemma heads_Text: "heads (Text i s) = [(i, 3, [])]"
  by (simp add: heads_def headOf_def)

lemma heads_Elem: "heads (Elem i t a c ks) = (i, 1, c) # concat (map heads ks)"
proof -
  have h: "heads = (\<lambda>r. map headOf (nodes_of r))" by (rule ext) (simp add: heads_def)
  show ?thesis unfolding h by (simp add: headOf_def map_concat comp_def)
qed

lemma nid_heads: "map nid (nodes_of r) = map fst (heads r)"
  by (simp add: heads_def headOf_def comp_def)

lemma nodes_of_node_at: "n \<in> set (nodes_of r) \<Longrightarrow> \<exists>p. node_at p r = Some n"
proof (induction r arbitrary: n)
  case (Text i s)
  then show ?case by (auto intro: exI[of _ "[]"])
next
  case (Elem i t a c ks)
  show ?case
  proof (cases "n = Elem i t a c ks")
    case True then show ?thesis by (auto intro: exI[of _ "[]"])
  next
    case False
    with Elem.prems obtain k where k: "k \<in> set ks" "n \<in> set (nodes_of k)" by auto
    then obtain j where j: "j < length ks" "ks ! j = k" by (auto simp: in_set_conv_nth)
    from Elem.IH[OF k] obtain p where "node_at p k = Some n" by blast
    with j show ?thesis by (intro exI[of _ "j # p"]) simp
  qed
qed

lemma getNode_mem:
  "distinct (map nid (nodes_of r)) \<Longrightarrow> n \<in> set (nodes_of r) \<Longrightarrow> getNode r (nid n) = Some n"
  using nodes_of_node_at getNode_node_at by blast

lemma getNode_in_nodes:
  assumes "getNode r i = Some n"
  shows "n \<in> set (nodes_of r) \<and> nid n = i"
proof -
  from assms obtain p where "path_of i r = Some p" "node_at p r = Some n"
    unfolding getNode_def by (auto split: option.splits)
  then show ?thesis using path_of_node_at[of i r p] node_at_in_nodes[of p r n] by auto
qed

lemma classesOf_heads:
  assumes "distinct (map nid (nodes_of r))" "(b, ty, cl) \<in> set (heads r)"
  shows "classesOf r b = cl" "isElementNode r b \<longleftrightarrow> ty = 1"
proof -
  from assms(2) obtain n where n: "n \<in> set (nodes_of r)" "headOf n = (b, ty, cl)"
    by (auto simp: heads_def)
  then have "getNode r b = Some n" using getNode_mem[OF assms(1) n(1)] by (simp add: headOf_def)
  with n(2) show "classesOf r b = cl" "isElementNode r b \<longleftrightarrow> ty = 1"
    by (auto simp: classesOf_def isElementNode_def headOf_def)
qed

lemma isElementNode_heads:
  assumes "isElementNode r b"
  shows "\<exists>cl. (b, 1, cl) \<in> set (heads r)"
proof -
  from assms obtain n where n: "getNode r b = Some n" "nodeType n = 1"
    unfolding isElementNode_def by (auto split: option.splits)
  from getNode_in_nodes[OF n(1)] have "n \<in> set (nodes_of r)" "nid n = b" by auto
  then have "headOf n \<in> set (heads r)" "headOf n = (b, 1, classList n)"
    using n(2) by (auto simp: heads_def headOf_def)
  then show ?thesis by metis
qed

lemma mset_concat_update:
  "k < length xs \<Longrightarrow> mset (concat (xs[k := y])) + mset (xs ! k) = mset (concat xs) + mset y"
proof (induction xs arbitrary: k)
  case Nil then show ?case by simp
next
  case (Cons x xs)
  show ?case
  proof (cases k)
    case 0 then show ?thesis by simp
  next
    case (Suc j)
    with Cons.prems have "j < length xs" by simp
    from Cons.IH[OF this] Suc show ?thesis by (simp add: ac_simps)
  qed
qed

lemma heads_modify_at:
  "node_at p r = Some n \<Longrightarrow>
     mset (heads (modify_at p f r)) + mset (heads n) = mset (heads r) + mset (heads (f n))"
proof (induction p arbitrary: r)
  case Nil then show ?case by (simp add: ac_simps)
next
  case (Cons k q)
  then obtain i t a c ks where r: "r = Elem i t a c ks" by (cases r) (auto split: if_splits)
  with Cons.prems have k: "k < length ks" "node_at q (ks ! k) = Some n" by (auto split: if_splits)
  let ?m = "modify_at q f (ks ! k)"
  have 1: "mset (heads ?m) + mset (heads n) = mset (heads (ks ! k)) + mset (heads (f n))"
    by (rule Cons.IH[OF k(2)])
  have 2: "mset (concat ((map heads ks)[k := heads ?m])) + mset (heads (ks ! k))
             = mset (concat (map heads ks)) + mset (heads ?m)"
    using mset_concat_update[of k "map heads ks" "heads ?m"] k(1) by simp
  have "mset (concat ((map heads ks)[k := heads ?m])) + mset (heads n) + (mset (heads (ks ! k)) + mset (heads ?m))
      = mset (concat (map heads ks)) + mset (heads (f n)) + (mset (heads (ks ! k)) + mset (heads ?m))"
  proof -
    have "mset (concat ((map heads ks)[k := heads ?m])) + mset (heads n) + (mset (heads (ks ! k)) + mset (heads ?m))
       = (mset (concat ((map heads ks)[k := heads ?m])) + mset (heads (ks ! k))) + (mset (heads ?m) + mset (heads n))"
      by (simp add: ac_simps)
    also have "\<dots> = (mset (concat (map heads ks)) + mset (heads ?m)) + (mset (heads (ks ! k)) + mset (heads (f n)))"
      by (simp only: 1 2)
    also have "\<dots> = mset (concat (map heads ks)) + mset (heads (f n)) + (mset (heads (ks ! k)) + mset (heads ?m))"
      by (simp add: ac_simps)
    finally show ?thesis .
  qed
  then have "mset (concat ((map heads ks)[k := heads ?m])) + mset (heads n)
      = mset (concat (map heads ks)) + mset (heads (f n))"
    by simp
  with r k(1) show ?case by (simp add: heads_Elem map_update)
qed

lemma heads_wrapInnerAt:
  assumes "getNode r l = Some n" "nodeType n = 1"
  shows "mset (heads (wrapInnerAt l w tag r)) = mset (heads r) + {#(w, 1, [])#}"
proof -
  from assms(1) obtain p where p: "path_of l r = Some p" "node_at p r = Some n"
    unfolding getNode_def by (auto split: option.splits)
  from assms(2) obtain i t a c ks where n: "n = Elem i t a c ks" by (cases n) auto
  have "mset (heads (wrapChildren w tag n)) = mset (heads n) + {#(w, 1, [])#}"
    unfolding n by (simp add: heads_Elem)
  with heads_modify_at[OF p(2), of "wrapChildren w tag"]
  have "mset (heads (modify_at p (wrapChildren w tag) r)) + mset (heads n)
         = mset (heads r) + {#(w, 1, [])#} + mset (heads n)" by (simp add: ac_simps)
  then show ?thesis using p(1) by (simp add: wrapInnerAt_def)
qed

lemma wf_page_wrap:
  assumes "wf_page d" "isElementNode (root d) l"
  shows "wf_page (snd (elementWrapInner l tag d))"
    and "set (heads (root (snd (elementWrapInner l tag d)))) = insert (fresh d, 1, []) (set (heads (root d)))"
proof -
  from assms(2) obtain n where n: "getNode (root d) l = Some n" "nodeType n = 1"
    by (auto simp: isElementNode_def split: option.splits)
  let ?r' = "wrapInnerAt l (fresh d) tag (root d)"
  have m: "mset (heads ?r') = mset (heads (root d)) + {#(fresh d, 1, [])#}"
    by (rule heads_wrapInnerAt[OF n])
  then have "set_mset (mset (heads ?r')) = set_mset (mset (heads (root d)) + {#(fresh d, 1, [])#})"
    by simp
  then have s: "set (heads ?r') = insert (fresh d, 1, []) (set (heads (root d)))" by simp
  then show "set (heads (root (snd (elementWrapInner l tag d)))) = insert (fresh d, 1, []) (set (heads (root d)))"
    by (simp add: elementWrapInner_def)
  have "image_mset fst (mset (heads ?r')) = image_mset fst (mset (heads (root d)) + {#(fresh d, 1, [])#})"
    using m by simp
  then have "mset (map fst (heads ?r')) = mset (fresh d # map fst (heads (root d)))"
    by simp
  then have "distinct (map fst (heads ?r')) \<longleftrightarrow> distinct (fresh d # map fst (heads (root d)))"
    by (rule mset_eq_imp_distinct_iff)
  moreover have "fresh d \<notin> set (map fst (heads (root d)))"
    using assms(1) by (auto simp: wf_page_def list_all_iff nid_heads[symmetric])
  ultimately have "distinct (map nid (nodes_of ?r'))"
    using assms(1) by (simp add: wf_page_def nid_heads)
  moreover have "list_all (\<lambda>n. nid n < Suc (fresh d)) (nodes_of ?r')"
  proof -
    have "set (map nid (nodes_of ?r')) = insert (fresh d) (set (map nid (nodes_of (root d))))"
      using s by (simp add: nid_heads)
    then have "\<forall>n\<in>set (nodes_of ?r'). nid n = fresh d \<or> nid n \<in> nid ` set (nodes_of (root d))"
      by (metis image_eqI insert_iff list.set_map)
    then show ?thesis using assms(1) by (fastforce simp: wf_page_def list_all_iff less_Suc_eq)
  qed
  ultimately show "wf_page (snd (elementWrapInner l tag d))"
    by (simp add: wf_page_def elementWrapInner_def)
qed

lemma nodes_along_subset: "set (nodes_along p r) \<subseteq> set (nodes_of r)"
proof (induction p arbitrary: r)
  case Nil then show ?case by (cases r) auto
next
  case (Cons k q)
  show ?case
  proof (cases r)
    case (Text i s) then show ?thesis by simp
  next
    case (Elem i t a c ks)
    show ?thesis
    proof (cases "k < length ks")
      case True
      then have "ks ! k \<in> set ks" by simp
      with Cons.IH[of "ks ! k"] True Elem show ?thesis by auto
    next
      case False with Elem show ?thesis by simp
    qed
  qed
qed

lemma inclusiveAncestors_subset: "set (inclusiveAncestors r i) \<subseteq> set (nodes_of r)"
  unfolding inclusiveAncestors_def using nodes_along_subset by (auto split: option.splits)

lemma closestBlockIn_Some:
  "closestBlockIn inl limit ns = Some b \<Longrightarrow> \<exists>n\<in>set ns. nid n = b \<and> nodeType n = 1"
  by (induction ns) (auto split: if_splits)

lemma elementClosestBlock_element:
  assumes "distinct (map nid (nodes_of r))" "elementClosestBlock inl r e limit = Some b"
  shows "isElementNode r b"
proof -
  from closestBlockIn_Some[OF assms(2)[unfolded elementClosestBlock_def]]
  obtain n where n: "n \<in> set (inclusiveAncestors r e)" "nid n = b" "nodeType n = 1" by blast
  then have "n \<in> set (nodes_of r)" using inclusiveAncestors_subset by blast
  from getNode_mem[OF assms(1) this] n(2,3) show ?thesis by (simp add: isElementNode_def)
qed

lemma child_in_nodes:
  assumes "m \<in> set (nodes_of r)" "k \<in> set (childNodes m)"
  shows "k \<in> set (nodes_of r)"
proof -
  from nodes_of_node_at[OF assms(1)] obtain p where p: "node_at p r = Some m" by blast
  from assms(2) obtain j where j: "j < length (childNodes m)" "childNodes m ! j = k"
    by (auto simp: in_set_conv_nth)
  with p have "node_at (p @ [j]) r = Some k" by (simp add: node_at_snoc)
  then show ?thesis by (rule node_at_in_nodes)
qed

lemma parentNode_in_nodes: "parentNode r i = Some m \<Longrightarrow> m \<in> set (nodes_of r)"
  using parentNode_props node_at_in_nodes by blast

lemma nextAll_elements:
  assumes "n \<in> set (nextAll r i)"
  shows "n \<in> set (nodes_of r) \<and> nodeType n = 1"
proof -
  from assms obtain p m where m: "path_of i r = Some p" "parentNode r i = Some m"
    unfolding nextAll_def by (cases "path_of i r"; cases "parentNode r i") auto
  with assms have "n \<in> set (filter (\<lambda>n. nodeType n = 1) (drop (Suc (last p)) (childNodes m)))"
    unfolding nextAll_def by simp
  then have "n \<in> set (childNodes m)" "nodeType n = 1" by (auto dest: in_set_dropD)
  with child_in_nodes[OF parentNode_in_nodes[OF m(2)]] show ?thesis by blast
qed

lemma docOrder_subset: "set (docOrder r xs) \<subseteq> set xs"
  by (auto simp: docOrder_def)

lemma range_blocks_elements:
  assumes d: "distinct (map nid (nodes_of r))"
    and s: "elementClosestBlock inl r sc limit = Some sb"
    and e: "elementClosestBlock inl r ec limit = Some eb"
    and b: "b \<in> set (if sb = eb then [sb]
             else docOrder r (docOrder r (map nid (nextUntil r sb eb) @ [sb]) @ [eb]))"
  shows "isElementNode r b"
proof -
  have sbe: "isElementNode r sb" "isElementNode r eb"
    using elementClosestBlock_element[OF d] s e by blast+
  have "b = sb \<or> b = eb \<or> b \<in> nid ` set (nextUntil r sb eb)"
  proof (cases "sb = eb")
    case True with b show ?thesis by simp
  next
    case False
    with b have "b \<in> set (docOrder r (docOrder r (map nid (nextUntil r sb eb) @ [sb]) @ [eb]))"
      by simp
    then have "b \<in> set (docOrder r (map nid (nextUntil r sb eb) @ [sb]) @ [eb])"
      using docOrder_subset[of r "docOrder r (map nid (nextUntil r sb eb) @ [sb]) @ [eb]"] by blast
    then have "b = eb \<or> b \<in> set (docOrder r (map nid (nextUntil r sb eb) @ [sb]))" by auto
    then have "b = eb \<or> b \<in> set (map nid (nextUntil r sb eb) @ [sb])"
      using docOrder_subset[of r "map nid (nextUntil r sb eb) @ [sb]"] by blast
    then show ?thesis by auto
  qed
  moreover have "isElementNode r (nid n)" if "n \<in> set (nextUntil r sb eb)" for n
  proof -
    from that have "n \<in> set (nextAll r sb)" unfolding nextUntil_def by (auto dest: set_takeWhileD)
    from nextAll_elements[OF this] getNode_mem[OF d] show ?thesis by (simp add: isElementNode_def)
  qed
  ultimately show ?thesis using sbe by auto
qed

lemma fold_apply:
  "fold (\<lambda>c a. if \<not> hasClass r b c then True else a) cs a
     = (a \<or> (\<exists>c\<in>set cs. \<not> hasClass r b c))"
  by (induction cs arbitrary: a) auto

lemma collectBlock_eq:
  "collectBlock add b (d, apply, blocks)
     = (d, apply \<or> (\<exists>c\<in>set add. \<not> hasClass (root d) b c), blocks @ [b])"
  by (auto simp: collectBlock_def fold_apply)

lemma fold_collectBlock:
  "fold (collectBlock add) bs (d, ap, blocks)
     = (d, ap \<or> (\<exists>b\<in>set bs. \<exists>c\<in>set add. \<not> hasClass (root d) b c), blocks @ bs)"
proof (induction bs arbitrary: ap blocks)
  case Nil then show ?case by simp
next
  case (Cons b bs)
  show ?case by (simp add: collectBlock_eq Cons.IH disj_assoc)
qed

lemma wrap_keeps:
  assumes "wf_page d" "isElementNode (root d) l" "isElementNode (root d) b"
  shows "isElementNode (root (snd (elementWrapInner l tag d))) b"
    and "classesOf (root (snd (elementWrapInner l tag d))) b = classesOf (root d) b"
proof -
  let ?d' = "snd (elementWrapInner l tag d)"
  have wf': "distinct (map nid (nodes_of (root ?d')))"
    using wf_page_wrap(1)[OF assms(1,2)] by (simp add: wf_page_def)
  have d: "distinct (map nid (nodes_of (root d)))" using assms(1) by (simp add: wf_page_def)
  from isElementNode_heads[OF assms(3)] obtain cl where cl: "(b, 1, cl) \<in> set (heads (root d))" by blast
  then have cl': "(b, 1, cl) \<in> set (heads (root ?d'))" using wf_page_wrap(2)[OF assms(1,2)] by simp
  show "isElementNode (root ?d') b" using classesOf_heads(2)[OF wf' cl'] by simp
  show "classesOf (root ?d') b = classesOf (root d) b"
    using classesOf_heads(1)[OF wf' cl'] classesOf_heads(1)[OF d cl] by simp
qed

lemma wrap_new:
  assumes "wf_page d" "isElementNode (root d) l"
  shows "isElementNode (root (snd (elementWrapInner l tag d))) (fresh d)"
    and "classesOf (root (snd (elementWrapInner l tag d))) (fresh d) = []"
proof -
  let ?d' = "snd (elementWrapInner l tag d)"
  have wf': "distinct (map nid (nodes_of (root ?d')))"
    using wf_page_wrap(1)[OF assms(1,2)] by (simp add: wf_page_def)
  have w: "(fresh d, 1, []) \<in> set (heads (root ?d'))" using wf_page_wrap(2)[OF assms] by simp
  show "isElementNode (root ?d') (fresh d)" using classesOf_heads(2)[OF wf' w] by simp
  show "classesOf (root ?d') (fresh d) = []" using classesOf_heads(1)[OF wf' w] by simp
qed

lemma toggleInv_step:
  assumes "toggleInv add limit s"
  shows "toggleInv add limit (eachBlockOfRange inl (collectBlock add) limit bc rg s)"
proof -
  obtain d ap blocks where s: "s = (d, ap, blocks)" by (cases s) auto
  from assms s have wf: "wf_page d" and lim: "isElementNode (root d) limit"
    and bl: "\<forall>b\<in>set blocks. isElementNode (root d) b"
    and ap: "ap \<longleftrightarrow> (\<exists>b\<in>set blocks. \<exists>c\<in>set add. \<not> hasClass (root d) b c)"
    by (auto simp: toggleInv_def list_all_iff list_ex_iff)
  have dist: "distinct (map nid (nodes_of (root d)))" using wf by (simp add: wf_page_def)
  let ?sb = "elementClosestBlock inl (root d) (startContainer rg) limit"
  let ?eb = "elementClosestBlock inl (root d) (endContainer rg) limit"
  show ?thesis
  proof (cases "\<exists>sb eb. ?sb = Some sb \<and> ?eb = Some eb")
    case True
    then obtain sb eb where sb: "?sb = Some sb" and eb: "?eb = Some eb" by blast
    let ?bs = "if sb = eb then [sb]
             else docOrder (root d) (docOrder (root d) (map nid (nextUntil (root d) sb eb) @ [sb]) @ [eb])"
    have res: "eachBlockOfRange inl (collectBlock add) limit bc rg s
        = (d, ap \<or> (\<exists>b\<in>set ?bs. \<exists>c\<in>set add. \<not> hasClass (root d) b c), blocks @ ?bs)"
      unfolding eachBlockOfRange_def s using sb eb by (simp add: fold_collectBlock)
    have "\<forall>b\<in>set ?bs. isElementNode (root d) b"
      using range_blocks_elements[OF dist sb eb] by blast
    with wf lim bl ap show ?thesis unfolding res
      by (auto simp: toggleInv_def list_all_iff list_ex_iff)
  next
    case False
    let ?d' = "snd (elementWrapInner limit (tagString bc) d)"
    have w: "fst (elementWrapInner limit (tagString bc) d) = fresh d"
      by (simp add: elementWrapInner_def)
    have res: "eachBlockOfRange inl (collectBlock add) limit bc rg s
        = (?d', ap \<or> (\<exists>c\<in>set add. \<not> hasClass (root ?d') (fresh d) c), blocks @ [fresh d])"
      using False unfolding eachBlockOfRange_def s
      by (auto simp: collectBlock_eq elementWrapInner_def split: option.splits prod.splits)
    have wf': "wf_page ?d'" by (rule wf_page_wrap(1)[OF wf lim])
    have lim': "isElementNode (root ?d') limit" by (rule wrap_keeps(1)[OF wf lim lim])
    have bl': "\<forall>b\<in>set blocks. isElementNode (root ?d') b"
      using wrap_keeps(1)[OF wf lim] bl by blast
    have hc: "\<forall>b\<in>set blocks. \<forall>c. hasClass (root ?d') b c = hasClass (root d) b c"
      using wrap_keeps(2)[OF wf lim] bl by (simp add: hasClass_def)
    have new: "isElementNode (root ?d') (fresh d)" by (rule wrap_new(1)[OF wf lim])
    show ?thesis unfolding res using wf' lim' bl' hc new ap
      by (auto simp: toggleInv_def list_all_iff list_ex_iff)
  qed
qed

lemma eachRange_from_invariant:
  assumes "eachRange_from g c i s = Some res" "\<And>r s. I s \<Longrightarrow> I (c r s)"
  shows "I s \<longrightarrow> I res"
proof (rule eachRange_from.raw_induct[where P = "\<lambda>g' c' i s res. g' = g \<and> c' = c \<longrightarrow> I s \<longrightarrow> I res",
        OF _ assms(1), THEN mp, OF _ conjI[OF refl refl]], goal_cases)
  case (1 rec g' c' i s res)
  show ?case
  proof (intro impI, elim conjE)
    assume gc: "g' = g" "c' = c" and I: "I s"
    show "I res"
    proof (cases "i < length (g s)")
      case True
      with 1(2) gc have "rec g c (Suc i) (c (g s ! i) s) = Some res" by simp
      from 1(1)[OF this] assms(2)[OF I] show ?thesis by simp
    next
      case False
      with 1(2) gc I show ?thesis by simp
    qed
  qed
qed

lemma path_of_setClasses:
  "path_of i (setClasses f r) = path_of i r"
  "path_in i k (map (setClasses f) ks) = path_in i k ks"
  by (induction i r and i k ks rule: path_of_path_in.induct) (auto split: option.splits)

lemma node_at_setClasses:
  "node_at p (setClasses f r) = map_option (setClasses f) (node_at p r)"
proof (induction p arbitrary: r)
  case Nil then show ?case by simp
next
  case (Cons k q)
  then show ?case by (cases r) auto
qed

lemma getNode_setClasses:
  "getNode (setClasses f r) i = map_option (setClasses f) (getNode r i)"
  by (simp add: getNode_def path_of_setClasses node_at_setClasses split: option.splits)

lemma isElementNode_setClasses: "isElementNode (setClasses f r) b = isElementNode r b"
proof -
  have "nodeType (setClasses f n) = nodeType n" for n by (cases n) auto
  then show ?thesis by (auto simp: isElementNode_def getNode_setClasses split: option.splits)
qed

lemma classesOf_setClasses:
  assumes "isElementNode r b"
  shows "classesOf (setClasses f r) b = f b (classesOf r b)"
proof -
  from assms obtain n where n: "getNode r b = Some n" "nodeType n = 1"
    by (auto simp: isElementNode_def split: option.splits)
  then obtain i t a c ks where e: "n = Elem i t a c ks" by (cases n) auto
  from getNode_in_nodes[OF n(1)] e have "i = b" by simp
  with n(1) e show ?thesis by (simp add: classesOf_def getNode_setClasses)
qed

lemma set_addTokens: "set (addTokens cs c) = set c \<union> set cs"
  unfolding addTokens_def by (induction cs arbitrary: c) auto

lemma set_stripTokens: "set (stripTokens cs c) = set c - set cs"
  by (auto simp: stripTokens_def)

lemma eachBlockOfRange_page:
  "fst (eachBlockOfRange inl (collectBlock add) limit bc rg s) = fst s
   \<or> ((elementClosestBlock inl (root (fst s)) (startContainer rg) limit = None
        \<or> elementClosestBlock inl (root (fst s)) (endContainer rg) limit = None)
      \<and> fst (eachBlockOfRange inl (collectBlock add) limit bc rg s)
          = snd (elementWrapInner limit (tagString bc) (fst s)))"
proof -
  obtain d ap blocks where s: "s = (d, ap, blocks)" by (cases s) auto
  show ?thesis unfolding s eachBlockOfRange_def
    by (auto simp: fold_collectBlock collectBlock_eq split: option.splits prod.splits)
qed

lemma keep_step:
  assumes "wf_page (fst s) \<and> isElementNode (root (fst s)) limit
      \<and> (\<forall>b. isElementNode r0 b \<longrightarrow> isElementNode (root (fst s)) b \<and> classesOf (root (fst s)) b = classesOf r0 b)"
  shows "wf_page (fst (eachBlockOfRange inl (collectBlock add) limit bc rg s))
      \<and> isElementNode (root (fst (eachBlockOfRange inl (collectBlock add) limit bc rg s))) limit
      \<and> (\<forall>b. isElementNode r0 b \<longrightarrow>
            isElementNode (root (fst (eachBlockOfRange inl (collectBlock add) limit bc rg s))) b
          \<and> classesOf (root (fst (eachBlockOfRange inl (collectBlock add) limit bc rg s))) b = classesOf r0 b)"
proof -
  let ?d = "fst s" and ?d'' = "fst (eachBlockOfRange inl (collectBlock add) limit bc rg s)"
  let ?w = "snd (elementWrapInner limit (tagString bc) ?d)"
  from assms have wf: "wf_page ?d" and lim: "isElementNode (root ?d) limit"
    and k: "\<And>b. isElementNode r0 b \<Longrightarrow> isElementNode (root ?d) b \<and> classesOf (root ?d) b = classesOf r0 b"
    by auto
  from eachBlockOfRange_page[of inl add limit bc rg s] consider "?d'' = ?d" | "?d'' = ?w" by blast
  then show ?thesis
  proof cases
    case 1 then show ?thesis using assms by simp
  next
    case 2
    have "wf_page ?w" by (rule wf_page_wrap(1)[OF wf lim])
    moreover have "isElementNode (root ?w) limit" by (rule wrap_keeps(1)[OF wf lim lim])
    moreover have "isElementNode (root ?w) b \<and> classesOf (root ?w) b = classesOf r0 b"
      if "isElementNode r0 b" for b
      using wrap_keeps[OF wf lim, of b "tagString bc"] k[OF that] by simp
    ultimately show ?thesis unfolding 2 by blast
  qed
qed

lemma classesOf_removeClass:
  "isElementNode r b \<Longrightarrow> b \<in> set blocks \<Longrightarrow>
     classesOf (removeClass blocks cs r) b = stripTokens cs (classesOf r b)"
  by (simp add: removeClass_def classesOf_setClasses)

lemma classesOf_addClass:
  "isElementNode r b \<Longrightarrow> b \<in> set blocks \<Longrightarrow>
     classesOf (addClass blocks cs r) b = addTokens cs (classesOf r b)"
  by (simp add: addClass_def classesOf_setClasses)

lemma isElementNode_removeClass: "isElementNode (removeClass blocks cs r) b = isElementNode r b"
  by (simp add: removeClass_def isElementNode_setClasses)

lemma isElementNode_addClass: "isElementNode (addClass blocks cs r) b = isElementNode r b"
  by (simp add: addClass_def isElementNode_setClasses)


section \<open>C2: toggling classes on all collected blocks\<close>

lemma eachBlockOfRange_ranges:
  "length (currentRanges (eachBlockOfRange inl (collectBlock add) limit bc rg s))
     = length (currentRanges s)"
proof -
  have "length (getAllRanges (snd (elementWrapInner limit (tagString bc) (fst s))))
      = length (getAllRanges (fst s))"
    by (simp add: elementWrapInner_def moveSelection_def getAllRanges_def)
  with eachBlockOfRange_page[of inl add limit bc rg s] show ?thesis
    by (auto simp: currentRanges_def)
qed

text \<open>The collecting loop of \<open>selectionToggleBlockClasses\<close> ends: no round changes the
  number of ranges.\<close>

lemma selectionEachBlock_collect_returns:
  "\<exists>res. selectionEachBlock inl (collectBlock add) limit bc s = Some res"
  unfolding selectionEachBlock_def selectionEachRange_def
  by (rule eachRange_from_terminates) (rule eachBlockOfRange_ranges)

lemma toggle_result:
  assumes wf: "wf_page d" and lim: "isElementNode (root d) limitElement"
    and run: "selectionToggleBlockClasses inl addClasses removeClasses limitElement blockContainer d = Some d'"
  shows "\<exists>p ap blocks.
      selectionEachBlock inl (collectBlock addClasses) limitElement blockContainer (d, False, [])
        = Some (p, ap, blocks)
    \<and> (\<forall>b. isElementNode (root d) b \<longrightarrow> classesOf (root p) b = classesOf (root d) b)
    \<and> (ap \<longleftrightarrow> (\<exists>b\<in>set blocks. \<exists>c\<in>set addClasses. \<not> hasClass (root p) b c))
    \<and> (\<forall>b\<in>set blocks. isElementNode (root d') b
         \<and> classesOf (root d') b =
             (if ap then addTokens addClasses (stripTokens removeClasses (classesOf (root p) b))
              else stripTokens addClasses (stripTokens removeClasses (classesOf (root p) b))))
    \<and> ((\<forall>b\<in>set blocks. \<forall>c\<in>set addClasses. hasClass (root d') b c)
       \<or> (\<forall>b\<in>set blocks. \<forall>c\<in>set addClasses. \<not> hasClass (root d') b c))"
proof -
  from run obtain p ap blocks where
    each: "selectionEachBlock inl (collectBlock addClasses) limitElement blockContainer (d, False, [])
             = Some (p, ap, blocks)"
    and d': "d' = p\<lparr>root := (if ap then addClass blocks addClasses else removeClass blocks addClasses)
                      (removeClass blocks removeClasses (root p))\<rparr>"
    unfolding selectionToggleBlockClasses_def by (auto split: option.splits)
  let ?c = "eachBlockOfRange inl (collectBlock addClasses) limitElement blockContainer"
  have loop: "eachRange_from currentRanges ?c 0 (d, False, []) = Some (p, ap, blocks)"
    using each by (simp add: selectionEachBlock_def selectionEachRange_def)
  have "toggleInv addClasses limitElement (d, False, [])"
    using wf lim by (simp add: toggleInv_def)
  with eachRange_from_invariant[OF loop, of "toggleInv addClasses limitElement"] toggleInv_step
  have "toggleInv addClasses limitElement (p, ap, blocks)" by blast
  then have bl: "\<forall>b\<in>set blocks. isElementNode (root p) b"
    and ap: "ap \<longleftrightarrow> (\<exists>b\<in>set blocks. \<exists>c\<in>set addClasses. \<not> hasClass (root p) b c)"
    by (auto simp: toggleInv_def list_all_iff list_ex_iff)
  let ?K = "\<lambda>s. wf_page (fst s) \<and> isElementNode (root (fst s)) limitElement
      \<and> (\<forall>b. isElementNode (root d) b \<longrightarrow>
            isElementNode (root (fst s)) b \<and> classesOf (root (fst s)) b = classesOf (root d) b)"
  have "?K (d, False, [])" using wf lim by simp
  with eachRange_from_invariant[OF loop, of ?K] keep_step[of _ limitElement "root d" inl addClasses blockContainer]
  have "?K (p, ap, blocks)" by blast
  then have keep: "\<forall>b. isElementNode (root d) b \<longrightarrow> classesOf (root p) b = classesOf (root d) b"
    by simp
  let ?r1 = "removeClass blocks removeClasses (root p)"
  have fin: "isElementNode (root d') b
         \<and> classesOf (root d') b =
             (if ap then addTokens addClasses (stripTokens removeClasses (classesOf (root p) b))
              else stripTokens addClasses (stripTokens removeClasses (classesOf (root p) b)))"
    if b: "b \<in> set blocks" for b
  proof -
    have e0: "isElementNode (root p) b" using bl b by blast
    have e1: "isElementNode ?r1 b" using e0 by (simp add: isElementNode_removeClass)
    have c1: "classesOf ?r1 b = stripTokens removeClasses (classesOf (root p) b)"
      using b e0 by (simp add: classesOf_removeClass)
    show ?thesis
    proof (cases ap)
      case True
      then have "root d' = addClass blocks addClasses ?r1" using d' by simp
      then show ?thesis using True b c1 e1
        by (simp add: classesOf_addClass isElementNode_addClass)
    next
      case False
      then have "root d' = removeClass blocks addClasses ?r1" using d' by simp
      then show ?thesis using False b c1 e1
        by (simp add: classesOf_removeClass isElementNode_removeClass)
    qed
  qed
  have "(\<forall>b\<in>set blocks. \<forall>c\<in>set addClasses. hasClass (root d') b c)
       \<or> (\<forall>b\<in>set blocks. \<forall>c\<in>set addClasses. \<not> hasClass (root d') b c)"
  proof (cases ap)
    case True
    then have "\<forall>b\<in>set blocks. \<forall>c\<in>set addClasses. hasClass (root d') b c"
      using fin by (simp add: hasClass_def set_addTokens)
    then show ?thesis by blast
  next
    case False
    then have "\<forall>b\<in>set blocks. \<forall>c\<in>set addClasses. \<not> hasClass (root d') b c"
      using fin by (simp add: hasClass_def set_stripTokens)
    then show ?thesis by blast
  qed
  with each keep ap fin show ?thesis by blast
qed


text \<open>
  C2, as amended. On a well-formed page whose limit element is an element of the
  document, \<open>selectionToggleBlockClasses\<close> returns. It first collects the blocks of all
  ranges; the
  collecting changes no class of an element of the page. It decides once, on the classes
  the collected blocks have while they are collected (before anything is stripped):
  \<open>apply\<close> holds exactly when some collected block lacks some class to add. Then every
  collected block loses the classes to remove, and gets all classes to add when \<open>apply\<close>
  holds and loses them otherwise. So afterwards either all collected blocks carry every
  class to add or none of them carries any.
\<close>

theorem selectionToggleBlockClasses_union:
  assumes wf: "wf_page d" and lim: "isElementNode (root d) limitElement"
  shows "\<exists>p ap blocks d'.
      selectionEachBlock inl (collectBlock addClasses) limitElement blockContainer (d, False, [])
        = Some (p, ap, blocks)
    \<and> selectionToggleBlockClasses inl addClasses removeClasses limitElement blockContainer d
        = Some d'
    \<and> (\<forall>b. isElementNode (root d) b \<longrightarrow> classesOf (root p) b = classesOf (root d) b)
    \<and> (ap \<longleftrightarrow> (\<exists>b\<in>set blocks. \<exists>c\<in>set addClasses. \<not> hasClass (root p) b c))
    \<and> (\<forall>b\<in>set blocks. isElementNode (root d') b
         \<and> classesOf (root d') b =
             (if ap then addTokens addClasses (stripTokens removeClasses (classesOf (root p) b))
              else stripTokens addClasses (stripTokens removeClasses (classesOf (root p) b))))
    \<and> ((\<forall>b\<in>set blocks. \<forall>c\<in>set addClasses. hasClass (root d') b c)
       \<or> (\<forall>b\<in>set blocks. \<forall>c\<in>set addClasses. \<not> hasClass (root d') b c))"
proof -
  from selectionEachBlock_collect_returns[of inl addClasses limitElement blockContainer "(d, False, [])"]
  obtain p ap blocks where each:
    "selectionEachBlock inl (collectBlock addClasses) limitElement blockContainer (d, False, [])
       = Some (p, ap, blocks)"
    by (metis prod_cases3)
  define d' where "d' = p\<lparr>root := (if ap then addClass blocks addClasses else removeClass blocks addClasses)
                      (removeClass blocks removeClasses (root p))\<rparr>"
  have run: "selectionToggleBlockClasses inl addClasses removeClasses limitElement blockContainer d
      = Some d'"
    by (simp add: selectionToggleBlockClasses_def each d'_def)
  from toggle_result[OF wf lim run] obtain p' ap' blocks' where r:
    "selectionEachBlock inl (collectBlock addClasses) limitElement blockContainer (d, False, [])
        = Some (p', ap', blocks')"
    "\<forall>b. isElementNode (root d) b \<longrightarrow> classesOf (root p') b = classesOf (root d) b"
    "ap' \<longleftrightarrow> (\<exists>b\<in>set blocks'. \<exists>c\<in>set addClasses. \<not> hasClass (root p') b c)"
    "\<forall>b\<in>set blocks'. isElementNode (root d') b
         \<and> classesOf (root d') b =
             (if ap' then addTokens addClasses (stripTokens removeClasses (classesOf (root p') b))
              else stripTokens addClasses (stripTokens removeClasses (classesOf (root p') b)))"
    "(\<forall>b\<in>set blocks'. \<forall>c\<in>set addClasses. hasClass (root d') b c)
       \<or> (\<forall>b\<in>set blocks'. \<forall>c\<in>set addClasses. \<not> hasClass (root d') b c)"
    by blast
  from r(1) each have e: "p' = p" "ap' = ap" "blocks' = blocks" by simp_all
  show ?thesis
    by (rule exI[of _ p], rule exI[of _ ap], rule exI[of _ blocks], rule exI[of _ d'])
       (use each run r(2-5) in \<open>simp only: e simp_thms\<close>)
qed


theorem selectionToggleBlockClasses_union_witness:
  "wf_page page_two_x \<and> isElementNode (root page_two_x) 1
   \<and> selectionToggleBlockClasses inlineTags [''y''] [''x''] 1 (Some ''div'') page_two_x
       = Some (page_two\<lparr>root := addClass [2, 4] [''y''] (root page_two)\<rparr>)
   \<and> (\<exists>p ap blocks. selectionEachBlock inlineTags (collectBlock [''y'']) 1 (Some ''div'')
          (page_two_x, False, []) = Some (p, ap, blocks))"
proof -
  have w: "wf_page page_two_x" by code_simp
  have l: "isElementNode (root page_two_x) 1" by code_simp
  have r: "selectionToggleBlockClasses inlineTags [''y''] [''x''] 1 (Some ''div'') page_two_x
       = Some (page_two\<lparr>root := addClass [2, 4] [''y''] (root page_two)\<rparr>)" by code_simp
  from selectionToggleBlockClasses_union[OF w l, of inlineTags "[''y'']" "Some ''div''"]
  have "\<exists>p ap blocks. selectionEachBlock inlineTags (collectBlock [''y'']) 1 (Some ''div'')
          (page_two_x, False, []) = Some (p, ap, blocks)" by blast
  with w l r show ?thesis by blast
qed


text \<open>
  The claim as stated fails when a class is in both lists: both paragraphs carry \<open>x\<close>,
  so \<open>apply\<close> is false; after \<open>x\<close> is stripped every block lacks it, and the code still
  removes it rather than applying it to all.
\<close>

theorem selectionToggleBlockClasses_decides_before_stripping:
  "selectionToggleBlockClasses inlineTags [''x''] [''x''] 1 (Some ''div'') page_two_x = Some page_two
   \<and> hasClass (root page_two_x) 2 ''x'' \<and> hasClass (root page_two_x) 4 ''x''
   \<and> \<not> hasClass (removeClass [2, 4] [''x''] (root page_two_x)) 2 ''x''
   \<and> \<not> hasClass (root page_two) 2 ''x'' \<and> \<not> hasClass (root page_two) 4 ''x''"
  by code_simp

section \<open>The blocks of one range\<close>

lemma fold_loggedBlock:
  "fold (loggedBlock cb) bs (d, u, log)
     = (case fold cb bs (d, u) of (d', u') \<Rightarrow> (d', u', log @ bs))"
proof (induction bs arbitrary: d u log)
  case Nil then show ?case by simp
next
  case (Cons b bs)
  obtain d1 u1 where c: "cb b (d, u) = (d1, u1)" by (cases "cb b (d, u)") auto
  show ?case using Cons.IH[of d1 u1 "log @ [b]"] c by (simp add: loggedBlock_def)
qed

lemma subseq_set: "subseq xs ys \<Longrightarrow> set xs \<subseteq> set ys"
  by (induction rule: list_emb.induct) auto

lemma filter_subseq_distinct:
  assumes "subseq M L" "distinct L" "\<And>y. P y \<Longrightarrow> y \<in> set M"
  shows "filter P L = filter P M"
  using assms
proof (induction M L arbitrary: P rule: list_emb.induct)
  case (list_emb_Nil ys)
  then have "\<And>y. \<not> P y" by auto
  then show ?case by simp
next
  case (list_emb_Cons xs ys y)
  have "set xs \<subseteq> set ys" using list_emb_Cons.hyps(1) by (rule subseq_set)
  moreover have "y \<notin> set ys" using list_emb_Cons.prems(1) by simp
  ultimately have "\<not> P y" using list_emb_Cons.prems(2) by blast
  moreover have "filter P ys = filter P xs"
    using list_emb_Cons.IH[of P] list_emb_Cons.prems by simp
  ultimately show ?case by simp
next
  case (list_emb_Cons2 x y xs ys)
  then have xy: "x = y" by simp
  have nys: "y \<notin> set ys" using list_emb_Cons2.prems(1) by simp
  have "set xs \<subseteq> set ys" using list_emb_Cons2.hyps(2) by (rule subseq_set)
  with nys have nxs: "y \<notin> set xs" by blast
  let ?P = "\<lambda>z. P z \<and> z \<noteq> y"
  have "filter ?P ys = filter ?P xs"
  proof (rule list_emb_Cons2.IH)
    show "distinct ys" using list_emb_Cons2.prems(1) by simp
    show "\<And>z. P z \<and> z \<noteq> y \<Longrightarrow> z \<in> set xs" using list_emb_Cons2.prems(2) xy by auto
  qed
  moreover have "filter ?P ys = filter P ys" using nys by (auto intro: filter_cong)
  moreover have "filter ?P xs = filter P xs" using nxs by (auto intro: filter_cong)
  ultimately show ?case using xy by simp
qed

lemma nodes_of_hd: "\<exists>rest. nodes_of n = n # rest"
  by (cases n) auto

lemma subseq_children_concat:
  "subseq (map nid ks) (concat (map (\<lambda>k. map nid (nodes_of k)) ks))"
proof (induction ks)
  case Nil then show ?case by simp
next
  case (Cons k ks)
  obtain rest where r: "nodes_of k = k # rest" using nodes_of_hd by blast
  have "subseq (map nid ks) (map nid rest @ concat (map (\<lambda>k. map nid (nodes_of k)) ks))"
    using Cons.IH by (rule list_emb_append2)
  then show ?case using r by simp
qed

lemma subseq_nth_concat:
  assumes "k < length xs" "subseq ys (xs ! k)"
  shows "subseq ys (concat xs)"
proof -
  have "concat xs = concat (take k xs) @ (xs ! k) @ concat (drop (Suc k) xs)"
    using assms(1) by (metis concat.simps(2) concat_append id_take_nth_drop)
  moreover have "subseq ys (concat (take k xs) @ (xs ! k) @ concat (drop (Suc k) xs))"
    using assms(2) by (intro list_emb_append2 subseq_rev_drop_many)
  ultimately show ?thesis by simp
qed

lemma subseq_children_nodes:
  "node_at p r = Some m \<Longrightarrow> subseq (map nid (childNodes m)) (map nid (nodes_of r))"
proof (induction p arbitrary: r)
  case Nil
  then have "r = m" by simp
  show ?case
  proof (cases m)
    case (Text i s) with \<open>r = m\<close> show ?thesis by simp
  next
    case (Elem i t a c ks)
    have "subseq (map nid ks) (nid m # concat (map (\<lambda>k. map nid (nodes_of k)) ks))"
      using subseq_children_concat[of ks] by (rule list_emb_Cons)
    with Elem \<open>r = m\<close> show ?thesis by (simp add: map_concat comp_def)
  qed
next
  case (Cons k q)
  then obtain i t a c ks where r: "r = Elem i t a c ks" by (cases r) (auto split: if_splits)
  with Cons.prems have k: "k < length ks" "node_at q (ks ! k) = Some m" by (auto split: if_splits)
  have "subseq (map nid (childNodes m)) (map nid (nodes_of (ks ! k)))" by (rule Cons.IH[OF k(2)])
  then have "subseq (map nid (childNodes m)) (map (\<lambda>k. map nid (nodes_of k)) ks ! k)"
    using k(1) by simp
  then have "subseq (map nid (childNodes m)) (concat (map (\<lambda>k. map nid (nodes_of k)) ks))"
    using subseq_nth_concat[of k "map (\<lambda>k. map nid (nodes_of k)) ks"] k(1) by simp
  then have "subseq (map nid (childNodes m)) (i # concat (map (\<lambda>k. map nid (nodes_of k)) ks))"
    by (rule list_emb_Cons)
  with r show ?case by (simp add: map_concat comp_def)
qed

lemma docOrder_children:
  assumes "distinct (map nid (nodes_of r))" "node_at p r = Some m"
    "set xs \<subseteq> nid ` set (childNodes m)"
  shows "docOrder r xs = filter (\<lambda>i. i \<in> set xs) (map nid (childNodes m))"
  unfolding docOrder_def
  using filter_subseq_distinct[OF subseq_children_nodes[OF assms(2)] assms(1), of "\<lambda>i. i \<in> set xs"]
    assms(3) by auto

lemma subseq_distinct: "subseq xs ys \<Longrightarrow> distinct ys \<Longrightarrow> distinct xs"
proof (induction rule: list_emb.induct)
  case (list_emb_Nil ys) then show ?case by simp
next
  case (list_emb_Cons xs ys y) then show ?case by simp
next
  case (list_emb_Cons2 x y xs ys)
  then show ?case using subseq_set[of xs ys] by auto
qed

lemma filter_image_map:
  assumes "distinct (map f xs)" "A \<subseteq> set xs"
  shows "filter (\<lambda>i. i \<in> f ` A) (map f xs) = map f (filter (\<lambda>x. x \<in> A) xs)"
proof -
  have inj: "inj_on f (set xs)" using assms(1) by (simp add: distinct_map)
  have "f x \<in> f ` A \<longleftrightarrow> x \<in> A" if "x \<in> set xs" for x
    using inj assms(2) that by (auto dest: inj_onD)
  then have "filter (\<lambda>x. f x \<in> f ` A) xs = filter (\<lambda>x. x \<in> A) xs"
    by (intro filter_cong) auto
  then show ?thesis by (simp add: filter_map comp_def)
qed

lemma sibling_run:
  assumes "distinct (pre @ [S] @ mid @ [E] @ post)"
  shows "filter (\<lambda>x. x \<in> insert S (set (filter P mid))) (pre @ [S] @ mid @ [E] @ post)
           = S # filter P mid"
    and "filter (\<lambda>x. x \<in> insert E (insert S (set (filter P mid)))) (pre @ [S] @ mid @ [E] @ post)
           = S # filter P mid @ [E]"
proof -
  have pre: "\<forall>x\<in>set pre. x \<noteq> S \<and> x \<noteq> E \<and> x \<notin> set mid" using assms by auto
  have post: "\<forall>x\<in>set post. x \<noteq> S \<and> x \<noteq> E \<and> x \<notin> set mid" using assms by auto
  have mid: "\<forall>x\<in>set mid. x \<noteq> S \<and> x \<noteq> E" using assms by auto
  have se: "S \<noteq> E" "E \<notin> set mid" "S \<notin> set mid" using assms by auto
  have 1: "filter (\<lambda>x. x \<in> insert S (set (filter P mid))) pre = []"
          "filter (\<lambda>x. x \<in> insert E (insert S (set (filter P mid)))) pre = []"
    using pre by (auto simp: filter_empty_conv)
  have 2: "filter (\<lambda>x. x \<in> insert S (set (filter P mid))) post = []"
          "filter (\<lambda>x. x \<in> insert E (insert S (set (filter P mid)))) post = []"
    using post by (auto simp: filter_empty_conv)
  have 3: "filter (\<lambda>x. x \<in> insert S (set (filter P mid))) mid = filter P mid"
          "filter (\<lambda>x. x \<in> insert E (insert S (set (filter P mid)))) mid = filter P mid"
    using mid by (auto intro!: filter_cong)
  show "filter (\<lambda>x. x \<in> insert S (set (filter P mid))) (pre @ [S] @ mid @ [E] @ post)
           = S # filter P mid"
    using 1 2 3 se by simp
  show "filter (\<lambda>x. x \<in> insert E (insert S (set (filter P mid)))) (pre @ [S] @ mid @ [E] @ post)
           = S # filter P mid @ [E]"
    using 1 2 3 se by simp
qed

lemma sibling_blocks:
  assumes dist: "distinct (map nid (nodes_of r))"
    and m: "node_at pm r = Some m"
    and ch: "childNodes m = pre @ [S] @ mid @ [E] @ post"
    and E: "nodeType E = 1"
  shows "docOrder r (docOrder r (map nid (nextUntil r (nid S) (nid E)) @ [nid S]) @ [nid E])
           = nid S # map nid (filter (\<lambda>n. nodeType n = 1) mid) @ [nid E]"
proof -
  let ?el = "\<lambda>n. nodeType n = 1"
  let ?cs = "pre @ [S] @ mid @ [E] @ post"
  have dc: "distinct (map nid ?cs)"
    using subseq_distinct[OF subseq_children_nodes[OF m] dist] ch by simp
  then have dn: "distinct ?cs" by (simp only: distinct_map)
  have S_at: "node_at (pm @ [length pre]) r = Some S"
    using m ch by (simp add: node_at_snoc nth_append)
  have pS: "path_of (nid S) r = Some (pm @ [length pre])"
    by (rule node_at_path_of[OF S_at dist])
  have parS: "parentNode r (nid S) = Some m"
    using pS m by (simp add: parentNode_def)
  have na: "nextAll r (nid S) = filter ?el (mid @ [E] @ post)"
    using pS parS ch by (simp add: nextAll_def)
  have "nid E \<notin> nid ` set mid" using dc by simp
  then have "\<forall>n\<in>set mid. nid n \<noteq> nid E" by (metis image_eqI)
  then have nu: "nextUntil r (nid S) (nid E) = filter ?el mid"
    unfolding nextUntil_def na using E
    by (simp add: takeWhile_append1 takeWhile_eq_all_conv[THEN iffD2] takeWhile_tail)
  have sub1: "insert S (set (filter ?el mid)) \<subseteq> set (childNodes m)" using ch by auto
  have sub2: "insert E (insert S (set (filter ?el mid))) \<subseteq> set (childNodes m)" using ch by auto
  have s1: "set (map nid (filter ?el mid) @ [nid S]) = nid ` insert S (set (filter ?el mid))" by auto
  have d1: "docOrder r (map nid (filter ?el mid) @ [nid S]) = nid S # map nid (filter ?el mid)"
  proof -
    have "docOrder r (map nid (filter ?el mid) @ [nid S])
        = filter (\<lambda>i. i \<in> nid ` insert S (set (filter ?el mid))) (map nid (childNodes m))"
      using docOrder_children[OF dist m, of "map nid (filter ?el mid) @ [nid S]"] sub1 s1
      by (simp only:) blast
    also have "\<dots> = map nid (filter (\<lambda>x. x \<in> insert S (set (filter ?el mid))) (childNodes m))"
      using filter_image_map[of nid "childNodes m", OF _ sub1] dc ch by simp
    also have "\<dots> = nid S # map nid (filter ?el mid)"
      using sibling_run(1)[OF dn, of ?el] ch by simp
    finally show ?thesis .
  qed
  have s2: "set ((nid S # map nid (filter ?el mid)) @ [nid E])
              = nid ` insert E (insert S (set (filter ?el mid)))" by auto
  have "docOrder r ((nid S # map nid (filter ?el mid)) @ [nid E])
        = filter (\<lambda>i. i \<in> nid ` insert E (insert S (set (filter ?el mid)))) (map nid (childNodes m))"
    using docOrder_children[OF dist m, of "(nid S # map nid (filter ?el mid)) @ [nid E]"] sub2 s2
    by (simp only:) blast
  also have "\<dots> = map nid (filter (\<lambda>x. x \<in> insert E (insert S (set (filter ?el mid)))) (childNodes m))"
    using filter_image_map[of nid "childNodes m", OF _ sub2] dc ch by simp
  also have "\<dots> = nid S # map nid (filter ?el mid) @ [nid E]"
    using sibling_run(2)[OF dn, of ?el] ch by simp
  finally show ?thesis using nu d1 by simp
qed

text \<open>
  What \<open>selectionEachBlock\<close> does for one range. When at least one side finds no block,
  it wraps the content of the limit element and calls the callback once, on the wrapper.
  When both sides find the same block, it calls the callback once, on that block. When
  they find different blocks, it calls the callback for the start block, the result of
  \<open>nextUntil\<close> and the end block, in document order; when the end block is a later sibling
  of the start block these are the start block, the sibling elements between the two and
  the end block.
\<close>

lemma eachBlockOfRange_calls:
  fixes cb :: "ident \<Rightarrow> page \<times> 'u \<Rightarrow> page \<times> 'u"
  shows
  "(elementClosestBlock inl (root d) (startContainer rg) limit = None
      \<or> elementClosestBlock inl (root d) (endContainer rg) limit = None \<longrightarrow>
      eachBlockOfRange inl (loggedBlock cb) limit bc rg (d, u, [])
        = (case elementWrapInner limit (tagString bc) d of
             (w, d1) \<Rightarrow> (case cb w (d1, u) of (d2, u2) \<Rightarrow> (d2, u2, [w]))))
   \<and> (\<forall>b. elementClosestBlock inl (root d) (startContainer rg) limit = Some b
          \<and> elementClosestBlock inl (root d) (endContainer rg) limit = Some b \<longrightarrow>
        eachBlockOfRange inl (loggedBlock cb) limit bc rg (d, u, [])
          = (case cb b (d, u) of (d2, u2) \<Rightarrow> (d2, u2, [b])))
   \<and> (\<forall>s e. elementClosestBlock inl (root d) (startContainer rg) limit = Some s
          \<and> elementClosestBlock inl (root d) (endContainer rg) limit = Some e \<and> s \<noteq> e \<longrightarrow>
        eachBlockOfRange inl (loggedBlock cb) limit bc rg (d, u, [])
          = (case fold cb (docOrder (root d) (docOrder (root d)
                             (map nid (nextUntil (root d) s e) @ [s]) @ [e])) (d, u) of
               (d2, u2) \<Rightarrow> (d2, u2, docOrder (root d) (docOrder (root d)
                             (map nid (nextUntil (root d) s e) @ [s]) @ [e]))))
   \<and> (\<forall>pm m pre S mid E post.
          distinct (map nid (nodes_of (root d)))
          \<and> elementClosestBlock inl (root d) (startContainer rg) limit = Some (nid S)
          \<and> elementClosestBlock inl (root d) (endContainer rg) limit = Some (nid E)
          \<and> node_at pm (root d) = Some m \<and> childNodes m = pre @ [S] @ mid @ [E] @ post \<longrightarrow>
        eachBlockOfRange inl (loggedBlock cb) limit bc rg (d, u, [])
          = (case fold cb (nid S # map nid (filter (\<lambda>n. nodeType n = 1) mid) @ [nid E]) (d, u) of
               (d2, u2) \<Rightarrow> (d2, u2, nid S # map nid (filter (\<lambda>n. nodeType n = 1) mid) @ [nid E])))"
proof (intro conjI allI impI)
  assume "elementClosestBlock inl (root d) (startContainer rg) limit = None
      \<or> elementClosestBlock inl (root d) (endContainer rg) limit = None"
  then show "eachBlockOfRange inl (loggedBlock cb) limit bc rg (d, u, [])
        = (case elementWrapInner limit (tagString bc) d of
             (w, d1) \<Rightarrow> (case cb w (d1, u) of (d2, u2) \<Rightarrow> (d2, u2, [w])))"
    by (auto simp: eachBlockOfRange_def loggedBlock_def split: option.splits prod.splits)
next
  fix b
  assume "elementClosestBlock inl (root d) (startContainer rg) limit = Some b
          \<and> elementClosestBlock inl (root d) (endContainer rg) limit = Some b"
  then show "eachBlockOfRange inl (loggedBlock cb) limit bc rg (d, u, [])
          = (case cb b (d, u) of (d2, u2) \<Rightarrow> (d2, u2, [b]))"
    by (simp add: eachBlockOfRange_def loggedBlock_def)
next
  fix s e
  assume "elementClosestBlock inl (root d) (startContainer rg) limit = Some s
          \<and> elementClosestBlock inl (root d) (endContainer rg) limit = Some e \<and> s \<noteq> e"
  then show "eachBlockOfRange inl (loggedBlock cb) limit bc rg (d, u, [])
          = (case fold cb (docOrder (root d) (docOrder (root d)
                             (map nid (nextUntil (root d) s e) @ [s]) @ [e])) (d, u) of
               (d2, u2) \<Rightarrow> (d2, u2, docOrder (root d) (docOrder (root d)
                             (map nid (nextUntil (root d) s e) @ [s]) @ [e])))"
    by (simp add: eachBlockOfRange_def fold_loggedBlock)
next
  fix pm m pre S mid E post
  assume a: "distinct (map nid (nodes_of (root d)))
          \<and> elementClosestBlock inl (root d) (startContainer rg) limit = Some (nid S)
          \<and> elementClosestBlock inl (root d) (endContainer rg) limit = Some (nid E)
          \<and> node_at pm (root d) = Some m \<and> childNodes m = pre @ [S] @ mid @ [E] @ post"
  then have dist: "distinct (map nid (nodes_of (root d)))"
    and sb: "elementClosestBlock inl (root d) (startContainer rg) limit = Some (nid S)"
    and eb: "elementClosestBlock inl (root d) (endContainer rg) limit = Some (nid E)"
    and m: "node_at pm (root d) = Some m" and ch: "childNodes m = pre @ [S] @ mid @ [E] @ post"
    by auto
  have Ein: "E \<in> set (nodes_of (root d))"
    using child_in_nodes[OF node_at_in_nodes[OF m], of E] ch by simp
  have "isElementNode (root d) (nid E)" by (rule elementClosestBlock_element[OF dist eb])
  with getNode_mem[OF dist Ein] have E: "nodeType E = 1" by (simp add: isElementNode_def)
  have "distinct (map nid (childNodes m))"
    using subseq_distinct[OF subseq_children_nodes[OF m] dist] .
  then have ne: "nid S \<noteq> nid E" using ch by auto
  define bs where "bs = nid S # map nid (filter (\<lambda>n. nodeType n = 1) mid) @ [nid E]"
  have "eachBlockOfRange inl (loggedBlock cb) limit bc rg (d, u, [])
          = fold (loggedBlock cb) bs (d, u, [])"
    using sb eb ne sibling_blocks[OF dist m ch E] unfolding bs_def
    by (simp add: eachBlockOfRange_def del: fold_simps)
  also have "\<dots> = (case fold cb bs (d, u) of (d2, u2) \<Rightarrow> (d2, u2, bs))"
    by (simp only: fold_loggedBlock append_Nil)
  finally show "eachBlockOfRange inl (loggedBlock cb) limit bc rg (d, u, [])
          = (case fold cb (nid S # map nid (filter (\<lambda>n. nodeType n = 1) mid) @ [nid E]) (d, u) of
               (d2, u2) \<Rightarrow> (d2, u2, nid S # map nid (filter (\<lambda>n. nodeType n = 1) mid) @ [nid E]))"
    unfolding bs_def .
qed


text \<open>
  With a block on one side only, the content of the limit element is wrapped: the start
  container has the block \<open>p\<close>, the end container (a text node directly in the limit
  element) has none.
\<close>

lemma eachBlockOfRange_wraps_with_start_block:
  "elementClosestBlock inlineTags (root page_mixed) 3 1 = Some 2
   \<and> elementClosestBlock inlineTags (root page_mixed) 4 1 = None
   \<and> eachBlockOfRange inlineTags logBlock 1 (Some ''div'')
        \<lparr>startContainer = 3, startOffset = 0, endContainer = 4, endOffset = 2\<rparr> (page_mixed, [])
      = (page_mixed\<lparr>root := Elem 1 ''div'' [] []
                               [Elem 5 ''div'' [] [] [Elem 2 ''p'' [] [] [Text 3 ''ab''], Text 4 ''cd'']],
                     fresh := 6\<rparr>, [5])"
  by code_simp

text \<open>
  C6. When both sides find blocks and the end block is not a sibling of the start block,
  \<open>startBlock.nextUntil(endBlock)\<close> never meets the end block and gives all the sibling
  elements after the start block. On \<open><div><p>a</p><ul><li>b</li></ul><p>z</p></div>\<close>,
  selected from \<open>a\<close> to \<open>b\<close>, the start block is the first \<open>p\<close> and the end block is the
  \<open>li\<close>; the callback is called on the \<open>p\<close>, the \<open>ul\<close>, the \<open>li\<close> and also on the last
  \<open>p\<close>, which lies after the end block in document order and outside the selection.
\<close>

theorem selectionEachBlock_passes_block_after_end:
  "elementClosestBlock inlineTags (root page_list) 3 1 = Some 2
   \<and> elementClosestBlock inlineTags (root page_list) 6 1 = Some 5
   \<and> selectionEachBlock inlineTags logBlock 1 (Some ''div'') (page_list, [])
       = Some (page_list, [2, 4, 5, 7])
   \<and> map nid (nodes_of (root page_list)) = [1, 2, 3, 4, 5, 6, 7, 8]
   \<and> getNode (root page_list) 7 = Some (Elem 7 ''p'' [] [] [Text 8 ''z''])"
  by code_simp
section \<open>Properties of the editing operations\<close>

lemma path_in_Some_iff:
  "path_in i k0 ks = Some pp \<longleftrightarrow>
     (\<exists>j q. pp = (k0 + j) # q \<and> j < length ks \<and> path_of i (ks ! j) = Some q
            \<and> (\<forall>j'<j. path_of i (ks ! j') = None))"
proof (induction ks arbitrary: k0)
  case Nil then show ?case by simp
next
  case (Cons n ns)
  show ?case
  proof (cases "path_of i n")
    case None
    have "path_in i k0 (n # ns) = Some pp \<longleftrightarrow> path_in i (Suc k0) ns = Some pp" using None by simp
    also have "\<dots> \<longleftrightarrow> (\<exists>j q. pp = (Suc k0 + j) # q \<and> j < length ns \<and> path_of i (ns ! j) = Some q
            \<and> (\<forall>j'<j. path_of i (ns ! j') = None))" by (rule Cons.IH)
    also have "\<dots> \<longleftrightarrow> (\<exists>j q. pp = (k0 + j) # q \<and> j < length (n # ns) \<and> path_of i ((n # ns) ! j) = Some q
            \<and> (\<forall>j'<j. path_of i ((n # ns) ! j') = None))" (is "?L \<longleftrightarrow> ?R")
    proof
      assume ?L
      then obtain j q where j: "pp = (Suc k0 + j) # q" "j < length ns" "path_of i (ns ! j) = Some q"
        "\<forall>j'<j. path_of i (ns ! j') = None" by blast
      have "\<forall>j'<Suc j. path_of i ((n # ns) ! j') = None"
        using j(4) None by (auto simp: nth_Cons split: nat.splits)
      with j show ?R by (intro exI[of _ "Suc j"] exI[of _ q]) simp
    next
      assume ?R
      then obtain j q where j: "pp = (k0 + j) # q" "j < length (n # ns)"
        "path_of i ((n # ns) ! j) = Some q" "\<forall>j'<j. path_of i ((n # ns) ! j') = None" by blast
      from j(3) None obtain j0 where j0: "j = Suc j0" by (cases j) auto
      have "\<forall>j'<j0. path_of i (ns ! j') = None" using j(4) j0 by auto
      with j j0 show ?L by (intro exI[of _ j0] exI[of _ q]) simp
    qed
    finally show ?thesis .
  next
    case (Some q0)
    have "path_in i k0 (n # ns) = Some pp \<longleftrightarrow> pp = k0 # q0" using Some by auto
    also have "\<dots> \<longleftrightarrow> (\<exists>j q. pp = (k0 + j) # q \<and> j < length (n # ns) \<and> path_of i ((n # ns) ! j) = Some q
            \<and> (\<forall>j'<j. path_of i ((n # ns) ! j') = None))" (is "?L \<longleftrightarrow> ?R")
    proof
      assume ?L then show ?R using Some by (intro exI[of _ 0] exI[of _ q0]) simp
    next
      assume ?R
      then obtain j q where j: "pp = (k0 + j) # q" "j < length (n # ns)"
        "path_of i ((n # ns) ! j) = Some q" "\<forall>j'<j. path_of i ((n # ns) ! j') = None" by blast
      have "j = 0"
      proof (rule ccontr)
        assume "j \<noteq> 0"
        then have "path_of i ((n # ns) ! 0) = None" using j(4) by blast
        with Some show False by simp
      qed
      with j Some show ?L by simp
    qed
    finally show ?thesis .
  qed
qed

lemma path_of_Elem_Cons:
  "path_of i (Elem l t a c ks) = Some (k # q) \<longleftrightarrow>
     i \<noteq> l \<and> k < length ks \<and> path_of i (ks ! k) = Some q \<and> (\<forall>j<k. path_of i (ks ! j) = None)"
  by (auto simp: path_in_Some_iff)

lemma path_of_Text_Cons: "path_of i (Text l s) \<noteq> Some (k # q)"
  by auto

lemma path_of_sub:
  "path_of i r = Some (p @ q) \<Longrightarrow> node_at p r = Some m \<Longrightarrow> path_of i m = Some q"
proof (induction p arbitrary: r)
  case Nil then show ?case by simp
next
  case (Cons k p)
  then obtain l t a c ks where r: "r = Elem l t a c ks" by (cases r) (auto split: if_splits)
  have "path_of i (Elem l t a c ks) = Some (k # (p @ q))"
    using Cons.prems(1) r by (simp del: path_of.simps)
  then have "path_of i (ks ! k) = Some (p @ q)"
    using path_of_Elem_Cons[THEN iffD1] by blast
  moreover from Cons.prems(2) r have "node_at p (ks ! k) = Some m" by (auto split: if_splits)
  ultimately have "path_of i (ks ! k) = Some (p @ q)" "node_at p (ks ! k) = Some m" by auto
  then show ?case by (rule Cons.IH)
qed

lemma nid_modify_at_path:
  "node_at p r = Some m \<Longrightarrow> p \<noteq> [] \<Longrightarrow> nid (modify_at p f r) = nid r"
  by (cases p; cases r) (auto split: if_splits)

lemma path_of_modify_at:
  assumes "path_of i r = Some (p @ q)" "node_at p r = Some m" "path_of i (f m) = Some q'"
  shows "path_of i (modify_at p f r) = Some (p @ q')"
  using assms
proof (induction p arbitrary: r)
  case Nil then show ?case by simp
next
  case (Cons k p)
  then obtain l t a c ks where r: "r = Elem l t a c ks" by (cases r) (auto split: if_splits)
  have "path_of i (Elem l t a c ks) = Some (k # (p @ q))"
    using Cons.prems(1) r by (simp del: path_of.simps)
  then have k4: "i \<noteq> l \<and> k < length ks \<and> path_of i (ks ! k) = Some (p @ q)
    \<and> (\<forall>j<k. path_of i (ks ! j) = None)"
    by (rule path_of_Elem_Cons[THEN iffD1])
  moreover from Cons.prems(2) r have "node_at p (ks ! k) = Some m" by (auto split: if_splits)
  ultimately have k: "i \<noteq> l" "k < length ks" "path_of i (ks ! k) = Some (p @ q)"
    "\<forall>j<k. path_of i (ks ! j) = None" "node_at p (ks ! k) = Some m"
    by auto
  have "path_of i (modify_at p f (ks ! k)) = Some (p @ q')"
    using Cons.IH[OF k(3) k(5) Cons.prems(3)] .
  moreover have "\<forall>j<k. path_of i (ks[k := modify_at p f (ks ! k)] ! j) = None"
    using k(4) by simp
  ultimately have "i \<noteq> l \<and> k < length (ks[k := modify_at p f (ks ! k)])
      \<and> path_of i (ks[k := modify_at p f (ks ! k)] ! k) = Some (p @ q')
      \<and> (\<forall>j<k. path_of i (ks[k := modify_at p f (ks ! k)] ! j) = None)"
    using k(1,2) by simp
  then have "path_of i (Elem l t a c (ks[k := modify_at p f (ks ! k)])) = Some (k # p @ q')"
    by (rule path_of_Elem_Cons[THEN iffD2])
  then show ?case using r k(2) by simp
qed

lemma node_at_append:
  "node_at (p @ q) r = (case node_at p r of None \<Rightarrow> None | Some m \<Rightarrow> node_at q m)"
  by (induction p arbitrary: r) auto

lemma node_at_modify_at:
  "node_at p r = Some m \<Longrightarrow> node_at p (modify_at p f r) = Some (f m)"
proof (induction p arbitrary: r)
  case Nil then show ?case by simp
next
  case (Cons k p)
  then show ?case by (cases r) (auto split: if_splits)
qed

lemma modify_at_twice:
  "node_at p r = Some m \<Longrightarrow> modify_at p f (modify_at p g r) = modify_at p (\<lambda>x. f (g x)) r"
proof (induction p arbitrary: r)
  case Nil then show ?case by simp
next
  case (Cons k p)
  then show ?case by (cases r) (auto split: if_splits)
qed

lemma modify_at_cong:
  "node_at p r = Some m \<Longrightarrow> f m = g m \<Longrightarrow> modify_at p f r = modify_at p g r"
proof (induction p arbitrary: r)
  case Nil then show ?case by simp
next
  case (Cons k p)
  then show ?case by (cases r) (auto split: if_splits)
qed

lemma nid_cutBefore [simp]: "nid (cutBefore g p off n) = g (nid n)"
  by (cases p; cases n) auto

lemma nid_cutAfter [simp]: "nid (cutAfter g p off n) = g (nid n)"
  by (cases p; cases n) auto

lemma textContent_cut:
  "textContent (cutBefore g p off n) @ textContent (cutAfter g' p off n) = textContent n"
proof (induction p arbitrary: n)
  case Nil then show ?case
  proof (cases n)
    case (Text i s) then show ?thesis by simp
  next
    case (Elem i t a c ks)
    have "concat (map textContent (take off ks)) @ concat (map textContent (drop off ks))
            = concat (map textContent ks)"
      by (metis append_take_drop_id concat_append map_append)
    then show ?thesis using Elem by simp
  qed
next
  case (Cons k p)
  show ?case
  proof (cases n)
    case (Text i s) then show ?thesis by simp
  next
    case (Elem i t a c ks)
    show ?thesis
    proof (cases "k < length ks")
      case True
      have "ks = take k ks @ (ks ! k) # drop (Suc k) ks" using True by (simp add: id_take_nth_drop)
      then have "concat (map textContent ks)
          = concat (map textContent (take k ks)) @ textContent (ks ! k)
            @ concat (map textContent (drop (Suc k) ks))"
        by (metis concat.simps(2) concat_append list.simps(9) map_append)
      with Cons.IH[of "ks ! k"] True Elem show ?thesis by simp
    next
      case False with Elem show ?thesis by simp
    qed
  qed
qed

lemma extractAt_common:
  "node_at pl r = Some L \<Longrightarrow>
     extractAt g (pl @ k # ps) so pl oe r
       = (modify_at pl (\<lambda>x. fst (extractAt g (k # ps) so [] oe x)) r,
          snd (extractAt g (k # ps) so [] oe L))"
proof (induction pl arbitrary: r)
  case Nil then show ?case by simp
next
  case (Cons x pl)
  then obtain i t a c ks where r: "r = Elem i t a c ks" by (cases r) (auto split: if_splits)
  with Cons.prems have x: "x < length ks" "node_at pl (ks ! x) = Some L" by (auto split: if_splits)
  show ?case using Cons.IH[OF x(2)] x(1) r by (simp split: prod.splits)
qed

lemma extractAt_tail:
  "extractAt g (k # ps) so [] (Suc k) (Elem l t a c ks)
     = (Elem l t a c (take k ks @ [cutBefore id ps so (ks ! k)] @ drop (Suc k) ks),
        [cutAfter g ps so (ks ! k)])"
  by simp

lemma common_prefix_append: "common_prefix (p @ a) (p @ b) = p @ common_prefix a b"
  by (induction p) auto

lemma lex_less_append: "lex_less (p @ a) (p @ b) = lex_less a b"
  by (induction p) auto

lemma nodes_along_append:
  "node_at p r = Some m \<Longrightarrow> nodes_along (p @ q) r = butlast (nodes_along p r) @ nodes_along q m"
proof (induction p arbitrary: r)
  case Nil then show ?case by simp
next
  case (Cons k p)
  then obtain i t a c ks where r: "r = Elem i t a c ks" by (cases r) (auto split: if_splits)
  with Cons.prems have x: "k < length ks" "node_at p (ks ! k) = Some m" by (auto split: if_splits)
  have "nodes_along p (ks ! k) \<noteq> []" by (cases p) (auto split: if_splits)
  with Cons.IH[OF x(2)] x(1) r show ?case by simp
qed

lemma nodes_along_in:
  "x \<in> set (nodes_along p n) \<Longrightarrow> x \<in> set (nodes_of n)"
  using nodes_along_subset by blast

lemma childOfLimit_found:
  assumes "\<forall>y\<in>set ys. nid y \<noteq> limit" "nid B \<noteq> limit" "nid L = limit"
  shows "childOfLimit limit (ys @ B # L # zs) = Some (nid B)"
  using assms
proof (induction ys)
  case Nil then show ?case by simp
next
  case (Cons y ys)
  then have IH: "childOfLimit limit (ys @ B # L # zs) = Some (nid B)" by simp
  show ?case
  proof (cases ys)
    case Nil with Cons.prems IH show ?thesis by simp
  next
    case (Cons y' ys')
    with Cons.prems IH show ?thesis by simp
  qed
qed

lemma path_of_self: "path_of (nid n) n = Some []"
  by (cases n) auto

lemma nodes_along_hd: "\<exists>rest. nodes_along p n = n # rest"
  by (cases p) (auto split: if_splits)

lemma distinct_sub:
  "node_at p r = Some m \<Longrightarrow> distinct (map nid (nodes_of r)) \<Longrightarrow> distinct (map nid (nodes_of m))"
proof (induction p arbitrary: r)
  case Nil then show ?case by simp
next
  case (Cons k p)
  then obtain i t a c ks where r: "r = Elem i t a c ks" by (cases r) (auto split: if_splits)
  with Cons.prems have x: "k < length ks" "node_at p (ks ! k) = Some m" by (auto split: if_splits)
  from Cons.IH[OF x(2)] distinct_child[OF Cons.prems(2)[unfolded r] x(1)] show ?case by simp
qed

lemma commonAncestor_collapsed:
  "path_of n r = Some p \<Longrightarrow> commonAncestorContainer r (collapsedAt n off) = node_at p r"
proof -
  have "common_prefix p p = p" by (induction p) auto
  then show "path_of n r = Some p \<Longrightarrow> ?thesis"
    by (simp add: commonAncestorContainer_def collapsedAt_def)
qed

text \<open>The situation of the second half: the limit node at path \<open>pl\<close>, the boundary in
  its child \<open>k\<close>.\<close>

lemma limit_child:
  assumes pl: "path_of limit r = Some pl" and pn: "path_of n r = Some (pl @ k # ps)"
  obtains t a c ks N where "node_at pl r = Some (Elem limit t a c ks)" "k < length ks"
    "node_at ps (ks ! k) = Some N" "nid N = n"
proof -
  from path_of_node_at[OF pl] obtain L where L: "node_at pl r = Some L" "nid L = limit" by blast
  from path_of_node_at[OF pn] obtain N where N: "node_at (pl @ k # ps) r = Some N" "nid N = n"
    by blast
  from N(1) L(1) have "node_at (k # ps) L = Some N" by (simp add: node_at_append)
  then obtain i t a c ks where e: "L = Elem i t a c ks" "k < length ks" "node_at ps (ks ! k) = Some N"
    by (cases L) (auto split: if_splits)
  with L N(2) that show ?thesis by auto
qed

lemma block_facts:
  assumes dist: "distinct (map nid (nodes_of r))"
    and L: "node_at pl r = Some (Elem limit t a c ks)" and k: "k < length ks"
  shows "path_of (nid (ks ! k)) r = Some (pl @ [k])"
    and "nid (ks ! k) \<noteq> limit"
    and "\<forall>j<k. path_of (nid (ks ! k)) (ks ! j) = None"
    and "\<forall>x\<in>set (nodes_of (ks ! k)). nid x \<noteq> limit"
proof -
  have B: "node_at (pl @ [k]) r = Some (ks ! k)" using L k by (simp add: node_at_append)
  show p: "path_of (nid (ks ! k)) r = Some (pl @ [k])" by (rule node_at_path_of[OF B dist])
  from path_of_sub[OF p L] have "path_of (nid (ks ! k)) (Elem limit t a c ks) = Some [k]" .
  then have "nid (ks ! k) \<noteq> limit \<and> k < length ks \<and> path_of (nid (ks ! k)) (ks ! k) = Some []
      \<and> (\<forall>j<k. path_of (nid (ks ! k)) (ks ! j) = None)"
    by (rule path_of_Elem_Cons[THEN iffD1])
  then show "nid (ks ! k) \<noteq> limit" "\<forall>j<k. path_of (nid (ks ! k)) (ks ! j) = None" by auto
  have dL: "distinct (map nid (nodes_of (Elem limit t a c ks)))" by (rule distinct_sub[OF L dist])
  show "\<forall>x\<in>set (nodes_of (ks ! k)). nid x \<noteq> limit"
  proof
    fix x assume "x \<in> set (nodes_of (ks ! k))"
    then have "x \<in> set (concat (map nodes_of ks))" using k by (auto intro!: bexI[of _ "ks ! k"])
    then show "nid x \<noteq> limit" using dL by auto
  qed
qed

lemma childOfLimit_chain:
  assumes dist: "distinct (map nid (nodes_of r))"
    and pl: "path_of limit r = Some pl" and pn: "path_of n r = Some (pl @ k # ps)"
    and L: "node_at pl r = Some (Elem limit t a c ks)" and k: "k < length ks"
    and N: "node_at ps (ks ! k) = Some N"
  shows "childOfLimit limit (inclusiveAncestors r n) = Some (nid (ks ! k))"
proof -
  obtain rest where rest: "nodes_along ps (ks ! k) = (ks ! k) # rest" using nodes_along_hd by blast
  have "nodes_along (pl @ k # ps) r
        = butlast (nodes_along pl r) @ Elem limit t a c ks # (ks ! k) # rest"
    using nodes_along_append[OF L, of "k # ps"] k rest by simp
  then have chain: "inclusiveAncestors r n
        = rev rest @ (ks ! k) # Elem limit t a c ks # rev (butlast (nodes_along pl r))"
    using pn by (simp add: inclusiveAncestors_def)
  have "\<forall>y\<in>set (rev rest). nid y \<noteq> limit"
  proof
    fix y assume "y \<in> set (rev rest)"
    then have "y \<in> set (nodes_along ps (ks ! k))" using rest by simp
    then have "y \<in> set (nodes_of (ks ! k))" by (rule nodes_along_in)
    then show "nid y \<noteq> limit" using block_facts(4)[OF dist L k] by blast
  qed
  moreover have "nid (ks ! k) \<noteq> limit" by (rule block_facts(2)[OF dist L k])
  ultimately show ?thesis unfolding chain by (intro childOfLimit_found) auto
qed

lemma locate:
  assumes pl: "path_of limit r = Some pl" and L: "node_at pl r = Some L"
    and pb: "path_of b r = Some (pl @ [k])"
    and kx: "k < length kx" "nid (kx ! k) = b" "\<forall>j<k. path_of b (kx ! j) = None" "b \<noteq> limit"
  shows "path_of limit (modify_at pl (\<lambda>x. Elem limit t a c kx) r) = Some pl"
    and "node_at pl (modify_at pl (\<lambda>x. Elem limit t a c kx) r) = Some (Elem limit t a c kx)"
    and "pointAfter (modify_at pl (\<lambda>x. Elem limit t a c kx) r) b = Some (limit, Suc k)"
proof -
  let ?r' = "modify_at pl (\<lambda>x. Elem limit t a c kx) r"
  have "path_of limit r = Some (pl @ [])" using pl by simp
  from path_of_modify_at[OF this L, of "\<lambda>x. Elem limit t a c kx" "[]"]
  show 1: "path_of limit ?r' = Some pl" by simp
  show 2: "node_at pl ?r' = Some (Elem limit t a c kx)" by (rule node_at_modify_at[OF L])
  have "b \<noteq> limit \<and> k < length kx \<and> path_of b (kx ! k) = Some []
      \<and> (\<forall>j<k. path_of b (kx ! j) = None)"
    using kx path_of_self[of "kx ! k"] by simp
  then have "path_of b (Elem limit t a c kx) = Some [k]" by (rule path_of_Elem_Cons[THEN iffD2])
  from path_of_modify_at[OF pb L, of "\<lambda>x. Elem limit t a c kx" "[k]", OF this]
  have 3: "path_of b ?r' = Some (pl @ [k])" .
  then have "parentNode ?r' b = Some (Elem limit t a c kx)" using 2 by (simp add: parentNode_def)
  with 3 show "pointAfter ?r' b = Some (limit, Suc k)" by (simp add: pointAfter_def)
qed

lemma insert_at_limit:
  assumes "path_of limit (root e) = Some pl" "node_at pl (root e) = Some (Elem limit t a c kx)"
  shows "insertNode new (collapsedAt limit j) e
     = Some (e\<lparr>root := modify_at pl (\<lambda>x. Elem limit t a c (take j kx @ new @ drop j kx)) (root e)\<rparr>)"
proof -
  have g: "getNode (root e) limit = Some (Elem limit t a c kx)"
    using assms by (simp add: getNode_def)
  have "modify_at pl (insertChildren j new) (root e)
      = modify_at pl (\<lambda>x. Elem limit t a c (take j kx @ new @ drop j kx)) (root e)"
    by (rule modify_at_cong[OF assms(2)]) simp
  then show ?thesis using assms(1) g
    by (simp add: insertNode_def collapsedAt_def)
qed

lemma setEndAfter_block:
  assumes dist: "distinct (map nid (nodes_of r))"
    and pl: "path_of limit r = Some pl" and pn: "path_of n r = Some (pl @ k # ps)"
    and L: "node_at pl r = Some (Elem limit t a c ks)" and k: "k < length ks"
  shows "setEndAfter r (nid (ks ! k)) (collapsedAt n off)
     = Some \<lparr>startContainer = n, startOffset = off, endContainer = limit, endOffset = Suc k\<rparr>"
proof -
  have pb: "path_of (nid (ks ! k)) r = Some (pl @ [k])" by (rule block_facts(1)[OF dist L k])
  then have "parentNode r (nid (ks ! k)) = Some (Elem limit t a c ks)"
    using L by (simp add: parentNode_def)
  with pb have pa: "pointAfter r (nid (ks ! k)) = Some (limit, Suc k)"
    by (simp add: pointAfter_def)
  have "lex_less (pl @ [Suc k]) (pl @ (k # ps @ [off])) = lex_less [Suc k] (k # ps @ [off])"
    by (rule lex_less_append)
  then have "\<not> lex_less (pl @ [Suc k]) ((pl @ k # ps) @ [off])" by simp
  then show ?thesis using pa pl pn
    by (simp add: setEndAfter_def point_pos_def collapsedAt_def)
qed

lemma extract_tail_of_block:
  assumes pl: "path_of limit (root d) = Some pl" and pn: "path_of n (root d) = Some (pl @ k # ps)"
    and L: "node_at pl (root d) = Some (Elem limit t a c ks)" and k: "k < length ks"
    and ne: "n \<noteq> limit"
  shows "extractContents
            \<lparr>startContainer = n, startOffset = off, endContainer = limit, endOffset = Suc k\<rparr> d
     = Some ([cutAfter (\<lambda>i. fresh d + i) ps off (ks ! k)], collapsedAt limit (Suc k),
             d\<lparr>root := modify_at pl
                  (\<lambda>x. Elem limit t a c (take k ks @ [cutBefore id ps off (ks ! k)] @ drop (Suc k) ks))
                  (root d),
               fresh := fresh d + fresh d\<rparr>)"
proof -
  let ?g = "\<lambda>i. fresh d + i"
  let ?L1 = "Elem limit t a c (take k ks @ [cutBefore id ps off (ks ! k)] @ drop (Suc k) ks)"
  have t: "extractAt ?g (k # ps) off [] (Suc k) (Elem limit t a c ks)
        = (?L1, [cutAfter ?g ps off (ks ! k)])"
    by (rule extractAt_tail)
  have "extractAt ?g (pl @ k # ps) off pl (Suc k) (root d)
      = (modify_at pl (\<lambda>x. fst (extractAt ?g (k # ps) off [] (Suc k) x)) (root d),
         snd (extractAt ?g (k # ps) off [] (Suc k) (Elem limit t a c ks)))"
    by (rule extractAt_common[OF L])
  moreover have "modify_at pl (\<lambda>x. fst (extractAt ?g (k # ps) off [] (Suc k) x)) (root d)
      = modify_at pl (\<lambda>x. ?L1) (root d)"
    by (rule modify_at_cong[OF L]) (simp only: t fst_conv)
  ultimately have e: "extractAt ?g (pl @ k # ps) off pl (Suc k) (root d)
      = (modify_at pl (\<lambda>x. ?L1) (root d), [cutAfter ?g ps off (ks ! k)])"
    by (simp only: t snd_conv)
  have "common_prefix (pl @ k # ps) (pl @ []) = pl @ common_prefix (k # ps) []"
    by (rule common_prefix_append)
  then have c: "common_prefix (pl @ k # ps) pl = pl" by simp
  have np: "\<not> is_prefix (pl @ k # ps) pl" by (simp add: is_prefix_def)
  show ?thesis using pl pn ne L
    by (simp add: extractContents_def collapsed_def e c np collapsedAt_def Let_def)
qed

lemma clearFormattingPlace_block:
  assumes dist: "distinct (map nid (nodes_of (root d)))"
    and pl: "path_of limit (root d) = Some pl" and pn: "path_of n (root d) = Some (pl @ k # ps)"
    and L: "node_at pl (root d) = Some (Elem limit t a c ks)" and k: "k < length ks"
  shows "clearFormattingPlace limit content (collapsedAt n off) d
     = Some (d\<lparr>root := modify_at pl
                  (\<lambda>x. Elem limit t a c
                      (take k ks @ [cutBefore id ps off (ks ! k), Text (fresh d + fresh d) content,
                                    cutAfter (\<lambda>i. fresh d + i) ps off (ks ! k)] @ drop (Suc k) ks))
                  (root d),
               fresh := Suc (fresh d + fresh d)\<rparr>)"
proof -
  let ?r = "root d"
  let ?b = "nid (ks ! k)"
  let ?B1 = "cutBefore id ps off (ks ! k)"
  let ?Bc = "cutAfter (\<lambda>i. fresh d + i) ps off (ks ! k)"
  let ?T = "Text (fresh d + fresh d) content"
  let ?k1 = "take k ks @ [?B1] @ drop (Suc k) ks"
  let ?k4 = "take k ks @ [?B1, ?Bc] @ drop (Suc k) ks"
  let ?k5 = "take k ks @ [?B1, ?T, ?Bc] @ drop (Suc k) ks"
  let ?r1 = "modify_at pl (\<lambda>x. Elem limit t a c ?k1) ?r"
  let ?r4 = "modify_at pl (\<lambda>x. Elem limit t a c ?k4) ?r"
  let ?r5 = "modify_at pl (\<lambda>x. Elem limit t a c ?k5) ?r"
  let ?d2 = "d\<lparr>root := ?r1, fresh := fresh d + fresh d\<rparr>"
  let ?d4 = "d\<lparr>root := ?r4, fresh := fresh d + fresh d\<rparr>"
  let ?d5 = "d\<lparr>root := ?r4, fresh := Suc (fresh d + fresh d)\<rparr>"
  from path_of_node_at[OF pn] obtain N where N: "node_at (pl @ k # ps) ?r = Some N" "nid N = n"
    by blast
  then have Nb: "node_at ps (ks ! k) = Some N" using L k by (simp add: node_at_append)
  have bf: "path_of ?b ?r = Some (pl @ [k])" "?b \<noteq> limit"
    "\<forall>j<k. path_of ?b (ks ! j) = None" "\<forall>x\<in>set (nodes_of (ks ! k)). nid x \<noteq> limit"
    by (rule block_facts[OF dist L k])+
  have ne: "n \<noteq> limit" using node_at_in_nodes[OF Nb] bf(4) N(2) by blast
  have lk: "length (take k ks) = k" using k by simp
  have ca: "commonAncestorContainer ?r (collapsedAt n off) = Some N"
    using commonAncestor_collapsed[OF pn] N(1) by simp
  have ch: "childOfLimit limit (inclusiveAncestors ?r (nid N)) = Some ?b"
    unfolding N(2) by (rule childOfLimit_chain[OF dist pl pn L k Nb])
  have se: "setEndAfter ?r ?b (collapsedAt n off)
     = Some \<lparr>startContainer = n, startOffset = off, endContainer = limit, endOffset = Suc k\<rparr>"
    by (rule setEndAfter_block[OF dist pl pn L k])
  have ex: "extractContents
       \<lparr>startContainer = n, startOffset = off, endContainer = limit, endOffset = Suc k\<rparr> d
     = Some ([?Bc], collapsedAt limit (Suc k), ?d2)"
    using extract_tail_of_block[OF pl pn L k ne, of off] by simp
  have k1: "k < length ?k1" "nid (?k1 ! k) = ?b" "\<forall>j<k. path_of ?b (?k1 ! j) = None"
    using k bf(3) by (simp_all add: nth_append)
  have l1: "path_of limit ?r1 = Some pl" "node_at pl ?r1 = Some (Elem limit t a c ?k1)"
    "pointAfter ?r1 ?b = Some (limit, Suc k)"
    by (rule locate[OF pl L bf(1) k1 bf(2)])+
  have rd: "root ?d2 = ?r1" "root ?d4 = ?r4" "root ?d5 = ?r4" by simp_all
  have c1: "collapseAfter (root ?d2) ?b = Some (collapsedAt limit (Suc k))"
    using l1(3) by (simp add: collapseAfter_def)
  have t1: "take (Suc k) ?k1 @ [?Bc] @ drop (Suc k) ?k1 = ?k4"
    using k by (simp add: lk)
  have "insertNode [?Bc] (collapsedAt limit (Suc k)) ?d2
     = Some (?d2\<lparr>root := modify_at pl (\<lambda>x. Elem limit t a c
                       (take (Suc k) ?k1 @ [?Bc] @ drop (Suc k) ?k1)) (root ?d2)\<rparr>)"
    by (rule insert_at_limit) (simp_all only: rd l1)
  then have i1: "insertNode [?Bc] (collapsedAt limit (Suc k)) ?d2 = Some ?d4"
    by (simp only: t1 rd modify_at_twice[OF L]) simp
  have k4: "k < length ?k4" "nid (?k4 ! k) = ?b" "\<forall>j<k. path_of ?b (?k4 ! j) = None"
    using k bf(3) by (simp_all add: nth_append)
  have l4: "path_of limit ?r4 = Some pl" "node_at pl ?r4 = Some (Elem limit t a c ?k4)"
    "pointAfter ?r4 ?b = Some (limit, Suc k)"
    by (rule locate[OF pl L bf(1) k4 bf(2)])+
  have c4: "collapseAfter (root ?d4) ?b = Some (collapsedAt limit (Suc k))"
    using l4(3) by (simp add: collapseAfter_def)
  have ct: "createTextNode content ?d4 = (?T, ?d5)"
    by (simp add: createTextNode_def)
  have t4: "take (Suc k) ?k4 @ [?T] @ drop (Suc k) ?k4 = ?k5"
    using k by (simp add: lk)
  have "insertNode [?T] (collapsedAt limit (Suc k)) ?d5
     = Some (?d5\<lparr>root := modify_at pl (\<lambda>x. Elem limit t a c
                       (take (Suc k) ?k4 @ [?T] @ drop (Suc k) ?k4)) (root ?d5)\<rparr>)"
    by (rule insert_at_limit) (simp_all only: rd l4)
  then have i4: "insertNode [?T] (collapsedAt limit (Suc k)) ?d5
     = Some (d\<lparr>root := ?r5, fresh := Suc (fresh d + fresh d)\<rparr>)"
    by (simp only: t4 rd modify_at_twice[OF L]) simp
  show ?thesis
    unfolding clearFormattingPlace_def
    by (simp only: ca ch se ex c1 i1 c4 ct i4 option.case prod.case)
qed

lemma modify_at_absorb:
  "modify_at p (\<lambda>x. C) (modify_at (p @ q) f r) = modify_at p (\<lambda>x. C) r"
proof (induction p arbitrary: r)
  case Nil then show ?case by simp
next
  case (Cons k p)
  then show ?case by (cases r) auto
qed

lemma ids_modify_at:
  assumes "node_at p r = Some n"
  shows "mset (map nid (nodes_of (modify_at p f r))) + mset (map nid (nodes_of n))
       = mset (map nid (nodes_of r)) + mset (map nid (nodes_of (f n)))"
proof -
  have "image_mset fst (mset (heads (modify_at p f r)) + mset (heads n))
      = image_mset fst (mset (heads r) + mset (heads (f n)))"
    by (simp only: heads_modify_at[OF assms])
  then show ?thesis by (simp add: nid_heads)
qed

lemma modify_at_append: "modify_at (p @ q) f r = modify_at p (modify_at q f) r"
proof (induction p arbitrary: r)
  case Nil then show ?case by simp
next
  case (Cons k p) then show ?case by (cases r) auto
qed

lemma extractAt_common2:
  "node_at c r = Some M \<Longrightarrow>
     extractAt g (c @ a) so (c @ b) oe r
       = (modify_at c (\<lambda>x. fst (extractAt g a so b oe x)) r,
          snd (extractAt g a so b oe M))"
proof (induction c arbitrary: r)
  case Nil then show ?case by simp
next
  case (Cons x c)
  then obtain i t a' c' ks where r: "r = Elem i t a' c' ks" by (cases r) (auto split: if_splits)
  with Cons.prems have x: "x < length ks" "node_at c (ks ! x) = Some M" by (auto split: if_splits)
  show ?case using Cons.IH[OF x(2)] x(1) r by (simp split: prod.splits)
qed

lemma nid_extractAt: "nid (fst (extractAt g a so b oe m)) = nid m"
  by (induction g a so b oe m rule: extractAt.induct) (auto split: prod.splits)

lemma take_drop_mset:
  "so \<le> eo \<Longrightarrow> mset (take so xs @ take (eo - so) (drop so xs) @ drop eo xs) = mset xs"
proof -
  assume "so \<le> eo"
  then have "drop eo xs = drop (eo - so) (drop so xs)" by simp
  then have "take so xs @ take (eo - so) (drop so xs) @ drop eo xs = xs"
    by (metis append_take_drop_id)
  then show ?thesis by simp
qed

lemma take_mid_drop:
  "so \<le> eo \<Longrightarrow> take so xs @ take (eo - so) (drop so xs) @ drop eo xs = xs"
proof -
  assume "so \<le> eo"
  then have "drop eo xs = drop (eo - so) (drop so xs)" by simp
  then show ?thesis by (metis append_take_drop_id)
qed

lemma split_two:
  assumes "x < y" "y < length ks"
  shows "ks = take x ks @ ks ! x # take (y - Suc x) (drop (Suc x) ks) @ ks ! y # drop (Suc y) ks"
proof -
  have x: "x < length ks" using assms by simp
  let ?r = "drop (Suc x) ks"
  have y': "y - Suc x < length ?r" using assms by simp
  have "?r = take (y - Suc x) ?r @ ?r ! (y - Suc x) # drop (Suc (y - Suc x)) ?r"
    by (rule id_take_nth_drop[OF y'])
  moreover have "?r ! (y - Suc x) = ks ! y" using assms by simp
  moreover have "drop (Suc (y - Suc x)) ?r = drop (Suc y) ks" using assms by simp
  ultimately have r: "?r = take (y - Suc x) ?r @ ks ! y # drop (Suc y) ks" by simp
  have "ks = take x ks @ ks ! x # ?r" by (rule id_take_nth_drop[OF x])
  with r show ?thesis by simp
qed

lemma ids_take_sub:
  "mset (map nid (concat (map nodes_of (take k ks)))) \<subseteq># mset (map nid (concat (map nodes_of ks)))"
proof -
  have "map nid (concat (map nodes_of ks))
      = map nid (concat (map nodes_of (take k ks))) @ map nid (concat (map nodes_of (drop k ks)))"
    by (metis append_take_drop_id concat_append map_append)
  then have "mset (map nid (concat (map nodes_of ks)))
      = mset (map nid (concat (map nodes_of (take k ks))))
        + mset (map nid (concat (map nodes_of (drop k ks))))"
    by (simp only: mset_append)
  then show ?thesis by (simp only: mset_subset_eq_add_left)
qed

lemma ids_drop_sub:
  "mset (map nid (concat (map nodes_of (drop k ks)))) \<subseteq># mset (map nid (concat (map nodes_of ks)))"
proof -
  have "map nid (concat (map nodes_of ks))
      = map nid (concat (map nodes_of (take k ks))) @ map nid (concat (map nodes_of (drop k ks)))"
    by (metis append_take_drop_id concat_append map_append)
  then have "mset (map nid (concat (map nodes_of ks)))
      = mset (map nid (concat (map nodes_of (take k ks))))
        + mset (map nid (concat (map nodes_of (drop k ks))))"
    by (simp only: mset_append)
  then show ?thesis by (simp only: mset_subset_eq_add_right)
qed

lemma ids_split_nth:
  "k < length ks \<Longrightarrow>
     mset (map nid (concat (map nodes_of ks)))
       = mset (map nid (concat (map nodes_of (take k ks))))
         + mset (map nid (nodes_of (ks ! k)))
         + mset (map nid (concat (map nodes_of (drop (Suc k) ks))))"
proof -
  assume k: "k < length ks"
  have "mset (map nid (concat (map nodes_of (take k ks @ ks ! k # drop (Suc k) ks))))
      = mset (map nid (concat (map nodes_of (take k ks))))
         + mset (map nid (nodes_of (ks ! k)))
         + mset (map nid (concat (map nodes_of (drop (Suc k) ks))))" by simp
  then show ?thesis by (simp only: id_take_nth_drop[OF k, symmetric])
qed

lemma ids_cutBefore_sub:
  "mset (map nid (nodes_of (cutBefore (\<lambda>a. a) p off n))) \<subseteq># mset (map nid (nodes_of n))"
proof (induction p arbitrary: n)
  case Nil
  show ?case
  proof (cases n)
    case (Text i s) then show ?thesis by simp
  next
    case (Elem i t a c ks)
    from ids_take_sub[of off ks] show ?thesis using Elem by (simp del: mset_map)
  qed
next
  case (Cons k p)
  show ?case
  proof (cases n)
    case (Text i s) then show ?thesis by simp
  next
    case (Elem i t a c ks)
    show ?thesis
    proof (cases "k < length ks")
      case True
      let ?A = "mset (map nid (concat (map nodes_of (take k ks))))"
      let ?C = "mset (map nid (nodes_of (cutBefore (\<lambda>a. a) p off (ks ! k))))"
      let ?B = "mset (map nid (nodes_of (ks ! k)))"
      let ?D = "mset (map nid (concat (map nodes_of (drop (Suc k) ks))))"
      have "?A + ?C \<subseteq># ?A + ?B" using Cons.IH[of "ks ! k"] by simp
      also have "?A + ?B \<subseteq># ?A + ?B + ?D" by (rule mset_subset_eq_add_left)
      finally have "?A + ?C \<subseteq># mset (map nid (concat (map nodes_of ks)))"
        by (simp only: ids_split_nth[OF True])
      moreover have "mset (map nid (concat (map nodes_of (take k ks @ [cutBefore (\<lambda>a. a) p off (ks ! k)]))))
          = ?A + ?C" by simp
      ultimately show ?thesis using Elem True by (simp del: mset_map mset_append)
    next
      case False then show ?thesis using Elem by simp
    qed
  qed
qed

lemma ids_cutAfter_sub:
  "mset (map nid (nodes_of (cutAfter (\<lambda>a. a) p off n))) \<subseteq># mset (map nid (nodes_of n))"
proof (induction p arbitrary: n)
  case Nil
  show ?case
  proof (cases n)
    case (Text i s) then show ?thesis by simp
  next
    case (Elem i t a c ks)
    from ids_drop_sub[of off ks] show ?thesis using Elem by (simp del: mset_map)
  qed
next
  case (Cons k p)
  show ?case
  proof (cases n)
    case (Text i s) then show ?thesis by simp
  next
    case (Elem i t a c ks)
    show ?thesis
    proof (cases "k < length ks")
      case True
      let ?A = "mset (map nid (concat (map nodes_of (take k ks))))"
      let ?C = "mset (map nid (nodes_of (cutAfter (\<lambda>a. a) p off (ks ! k))))"
      let ?B = "mset (map nid (nodes_of (ks ! k)))"
      let ?D = "mset (map nid (concat (map nodes_of (drop (Suc k) ks))))"
      have "?C + ?D \<subseteq># ?B + ?D" using Cons.IH[of "ks ! k"] by simp
      also have "?B + ?D \<subseteq># ?A + (?B + ?D)" by (rule mset_subset_eq_add_right)
      finally have "?C + ?D \<subseteq># mset (map nid (concat (map nodes_of ks)))"
        by (simp only: ids_split_nth[OF True] ac_simps)
      moreover have "mset (map nid (concat (map nodes_of (cutAfter (\<lambda>a. a) p off (ks ! k) # drop (Suc k) ks))))
          = ?C + ?D" by simp
      ultimately show ?thesis using Elem True by (simp del: mset_map mset_append)
    next
      case False then show ?thesis using Elem by simp
    qed
  qed
qed

lemma extract_cases:
  assumes cp0: "common_prefix sa ea = []"
    and S: "node_at sa M = Some S" and E: "node_at ea M = Some E"
    and so: "so \<le> nodeLength S" and eo: "eo \<le> nodeLength E"
    and ord: "\<not> lex_less (ea @ [eo]) (sa @ [so])"
  obtains (same) "sa = []" "ea = []" "so \<le> eo" "eo \<le> nodeLength M"
    | (endIn) i t a c ks y b' where "sa = []" "ea = y # b'" "M = Elem i t a c ks"
        "so \<le> y" "y < length ks"
    | (startIn) i t a c ks x a' where "sa = x # a'" "ea = []" "M = Elem i t a c ks"
        "x < eo" "eo \<le> length ks" "x < length ks"
    | (both) i t a c ks x a' y b' where "sa = x # a'" "ea = y # b'" "M = Elem i t a c ks"
        "x < y" "y < length ks"
proof (cases sa)
  case Nil
  show ?thesis
  proof (cases ea)
    case ea: Nil
    have "so \<le> eo" using ord Nil ea by simp
    moreover have "eo \<le> nodeLength M" using E eo ea by simp
    ultimately show ?thesis using Nil ea same by blast
  next
    case (Cons y b')
    from E Cons obtain i t a c ks where M: "M = Elem i t a c ks" "y < length ks"
      by (cases M) (auto split: if_splits)
    have "lex_less (b' @ [eo]) [] = False" by (cases b') auto
    then have "so \<le> y" using ord Nil Cons by auto
    with M Nil Cons endIn show ?thesis by blast
  qed
next
  case (Cons x a')
  from S Cons obtain i t a c ks where M: "M = Elem i t a c ks" "x < length ks"
    by (cases M) (auto split: if_splits)
  show ?thesis
  proof (cases ea)
    case Nil
    have "lex_less [] (a' @ [so]) = True" by (cases a') auto
    then have "x < eo" using ord Cons Nil by auto
    moreover have "eo \<le> length ks"
    proof -
      from E Nil have "E = M" by simp
      with eo M show ?thesis by simp
    qed
    ultimately show ?thesis using M Cons Nil startIn by blast
  next
    case ea: (Cons y b')
    from E ea M have y: "y < length ks" by (auto split: if_splits)
    have "x \<noteq> y" using cp0 Cons ea by (auto split: if_splits)
    then have "x < y" using ord Cons ea by auto
    with M Cons ea y both show ?thesis by blast
  qed
qed

lemma id_fun: "id = (\<lambda>a. a)"
  by (rule ext) simp

lemma elem_ids_sub:
  "mset (map nid (concat (map nodes_of K))) \<subseteq># mset (map nid (concat (map nodes_of ks))) \<Longrightarrow>
     mset (map nid (nodes_of (Elem i t a c K))) \<subseteq># mset (map nid (nodes_of (Elem i t a c ks)))"
  by simp

lemma extract_ids:
  assumes cp0: "common_prefix sa ea = []"
    and S: "node_at sa M = Some S" and E: "node_at ea M = Some E"
    and so: "so \<le> nodeLength S" and eo: "eo \<le> nodeLength E"
    and ord: "\<not> lex_less (ea @ [eo]) (sa @ [so])"
  shows "mset (map nid (nodes_of (fst (extractAt g sa so ea eo M))))
           \<subseteq># mset (map nid (nodes_of M))"
  using cp0 S E so eo ord
proof (cases rule: extract_cases)
  case same
  show ?thesis
  proof (cases M)
    case (Text i s) then show ?thesis using same by simp
  next
    case (Elem i t a c ks)
    let ?I = "\<lambda>xs. mset (map nid (concat (map nodes_of xs)))"
    have X: "fst (extractAt g sa so ea eo (Elem i t a c ks)) = Elem i t a c (take so ks @ drop eo ks)"
      using Elem same by simp
    have "take so ks @ take (eo - so) (drop so ks) @ drop eo ks = ks"
      by (rule take_mid_drop[OF same(3)])
    then have "?I ks = ?I (take so ks @ take (eo - so) (drop so ks) @ drop eo ks)" by simp
    also have "\<dots> = ?I (take so ks) + ?I (drop eo ks) + ?I (take (eo - so) (drop so ks))"
      by simp
    finally have ks: "?I ks = ?I (take so ks) + ?I (drop eo ks) + ?I (take (eo - so) (drop so ks))" .
    have k': "?I (take so ks @ drop eo ks) = ?I (take so ks) + ?I (drop eo ks)" by simp
    have "?I (take so ks @ drop eo ks) \<subseteq># ?I ks"
      unfolding k' ks by (rule mset_subset_eq_add_left)
    then show ?thesis unfolding Elem X by (rule elem_ids_sub)
  qed
next
  case (endIn i t a c ks y b')
  let ?I = "\<lambda>xs. mset (map nid (concat (map nodes_of xs)))"
  let ?C = "mset (map nid (nodes_of (cutAfter (\<lambda>a. a) b' eo (ks ! y))))"
  let ?B = "mset (map nid (nodes_of (ks ! y)))"
  let ?K = "take so ks @ [cutAfter (\<lambda>a. a) b' eo (ks ! y)] @ drop (Suc y) ks"
  have X: "fst (extractAt g sa so ea eo (Elem i t a c ks)) = Elem i t a c ?K"
    using endIn by (simp add: id_fun)
  have t: "take so (take y ks) = take so ks" using endIn(4) by (simp add: min_def)
  have "?I (take so ks) \<subseteq># ?I (take y ks)" using ids_take_sub[of so "take y ks"] by (simp only: t)
  then have "?I (take so ks) + ?C \<subseteq># ?I (take y ks) + ?B"
    using ids_cutAfter_sub[of b' eo "ks ! y"] by (rule mset_subset_eq_mono_add)
  then have "?I (take so ks) + ?C + ?I (drop (Suc y) ks) \<subseteq># ?I (take y ks) + ?B + ?I (drop (Suc y) ks)"
    by (simp only: subset_mset.add_le_cancel_right)
  then have r: "?I (take so ks) + ?C + ?I (drop (Suc y) ks) \<subseteq># ?I ks"
    by (simp only: ids_split_nth[OF endIn(5)])
  have k': "?I ?K = ?I (take so ks) + ?C + ?I (drop (Suc y) ks)" by simp
  have "?I ?K \<subseteq># ?I ks" unfolding k' by (rule r)
  then show ?thesis unfolding endIn(3) X by (rule elem_ids_sub)
next
  case (startIn i t a c ks x a')
  let ?I = "\<lambda>xs. mset (map nid (concat (map nodes_of xs)))"
  let ?C = "mset (map nid (nodes_of (cutBefore (\<lambda>a. a) a' so (ks ! x))))"
  let ?B = "mset (map nid (nodes_of (ks ! x)))"
  let ?K = "take x ks @ [cutBefore (\<lambda>a. a) a' so (ks ! x)] @ drop eo ks"
  have X: "fst (extractAt g sa so ea eo (Elem i t a c ks)) = Elem i t a c ?K"
    using startIn by (simp add: id_fun)
  have d: "drop (eo - Suc x) (drop (Suc x) ks) = drop eo ks" using startIn(4) by simp
  have "?I (drop eo ks) \<subseteq># ?I (drop (Suc x) ks)"
    using ids_drop_sub[of "eo - Suc x" "drop (Suc x) ks"] by (simp only: d)
  with ids_cutBefore_sub[of a' so "ks ! x"]
  have "?C + ?I (drop eo ks) \<subseteq># ?B + ?I (drop (Suc x) ks)" by (rule mset_subset_eq_mono_add)
  then have "?I (take x ks) + (?C + ?I (drop eo ks)) \<subseteq># ?I (take x ks) + (?B + ?I (drop (Suc x) ks))"
    by (simp only: subset_mset.add_le_cancel_left)
  then have r: "?I (take x ks) + (?C + ?I (drop eo ks)) \<subseteq># ?I ks"
    by (simp only: ids_split_nth[OF startIn(6)] add.assoc)
  have k': "?I ?K = ?I (take x ks) + (?C + ?I (drop eo ks))" by simp
  have "?I ?K \<subseteq># ?I ks" unfolding k' by (rule r)
  then show ?thesis unfolding startIn(3) X by (rule elem_ids_sub)
next
  case (both i t a c ks x a' y b')
  let ?I = "\<lambda>xs. mset (map nid (concat (map nodes_of xs)))"
  let ?C1 = "mset (map nid (nodes_of (cutBefore (\<lambda>a. a) a' so (ks ! x))))"
  let ?B1 = "mset (map nid (nodes_of (ks ! x)))"
  let ?C2 = "mset (map nid (nodes_of (cutAfter (\<lambda>a. a) b' eo (ks ! y))))"
  let ?B2 = "mset (map nid (nodes_of (ks ! y)))"
  let ?mid = "take (y - Suc x) (drop (Suc x) ks)"
  let ?K = "take x ks @ [cutBefore (\<lambda>a. a) a' so (ks ! x)]
        @ [cutAfter (\<lambda>a. a) b' eo (ks ! y)] @ drop (Suc y) ks"
  have xy: "x \<noteq> y" using both(4) by simp
  have X: "fst (extractAt g sa so ea eo (Elem i t a c ks)) = Elem i t a c ?K"
    using both xy by (simp add: id_fun)
  have "?I ks = ?I (take x ks @ ks ! x # ?mid @ ks ! y # drop (Suc y) ks)"
    using split_two[OF both(4,5)] by simp
  also have "\<dots> = ?I (take x ks) + ?B1 + ?I ?mid + ?B2 + ?I (drop (Suc y) ks)" by simp
  finally have ks: "?I ks = ?I (take x ks) + ?B1 + ?I ?mid + ?B2 + ?I (drop (Suc y) ks)" .
  have "?I (take x ks) + ?C1 \<subseteq># ?I (take x ks) + ?B1"
    using ids_cutBefore_sub[of a' so "ks ! x"] by simp
  also have "\<dots> \<subseteq># ?I (take x ks) + ?B1 + ?I ?mid" by (rule mset_subset_eq_add_left)
  finally have "?I (take x ks) + ?C1 + ?C2 \<subseteq># ?I (take x ks) + ?B1 + ?I ?mid + ?B2"
    using ids_cutAfter_sub[of b' eo "ks ! y"] by (rule mset_subset_eq_mono_add)
  then have r: "?I (take x ks) + ?C1 + ?C2 + ?I (drop (Suc y) ks) \<subseteq># ?I ks"
    by (simp only: ks subset_mset.add_le_cancel_right)
  have k': "?I ?K = ?I (take x ks) + ?C1 + ?C2 + ?I (drop (Suc y) ks)" by simp
  have "?I ?K \<subseteq># ?I ks" unfolding k' by (rule r)
  then show ?thesis unfolding both(3) X by (rule elem_ids_sub)
qed

lemma text_split_nth:
  "k < length ks \<Longrightarrow>
     concat (map textContent ks)
       = concat (map textContent (take k ks)) @ textContent (ks ! k)
         @ concat (map textContent (drop (Suc k) ks))"
proof -
  assume k: "k < length ks"
  have "concat (map textContent (take k ks @ ks ! k # drop (Suc k) ks))
      = concat (map textContent (take k ks)) @ textContent (ks ! k)
         @ concat (map textContent (drop (Suc k) ks))" by simp
  then show ?thesis by (simp only: id_take_nth_drop[OF k, symmetric])
qed

lemma text_take_mid_drop:
  assumes "so \<le> eo"
  shows "concat (map textContent (take so ks)) @ concat (map textContent (take (eo - so) (drop so ks)))
           @ concat (map textContent (drop eo ks)) = concat (map textContent ks)"
proof -
  have "concat (map textContent (take so ks @ take (eo - so) (drop so ks) @ drop eo ks))
      = concat (map textContent ks)" by (simp only: take_mid_drop[OF assms])
  then show ?thesis by simp
qed

lemma extract_text:
  assumes cp0: "common_prefix sa ea = []"
    and S: "node_at sa M = Some S" and E: "node_at ea M = Some E"
    and so: "so \<le> nodeLength S" and eo: "eo \<le> nodeLength E"
    and ord: "\<not> lex_less (ea @ [eo]) (sa @ [so])"
  shows "textContent (cutBefore g1 [] (if sa = [] then so else Suc (hd sa))
                        (fst (extractAt g sa so ea eo M)))
         @ flattenText (snd (extractAt g sa so ea eo M))
         @ textContent (cutAfter g2 [] (if sa = [] then so else Suc (hd sa))
                          (fst (extractAt g sa so ea eo M)))
       = textContent M"
  using cp0 S E so eo ord
proof (cases rule: extract_cases)
  case same
  show ?thesis
  proof (cases M)
    case (Text i s)
    have l: "so \<le> length s" using same Text by simp
    have "take so s @ take (eo - so) (drop so s) @ drop eo s = s"
      by (rule take_mid_drop[OF same(3)])
    then show ?thesis using Text same l by (simp add: flattenText_def)
  next
    case (Elem i t a c ks)
    have l: "so \<le> length ks" using same Elem by simp
    from text_take_mid_drop[OF same(3), of ks] show ?thesis
      using Elem same l by (simp add: flattenText_def)
  qed
next
  case (endIn i t a c ks y b')
  have l: "so \<le> length ks" using endIn by simp
  have m: "take (y - so) (drop so ks) @ drop y ks = drop so ks"
    using endIn(4) by (metis append_take_drop_id drop_drop le_add_diff_inverse2)
  have d: "drop y ks = ks ! y # drop (Suc y) ks" using endIn(5) by (simp add: Cons_nth_drop_Suc)
  have "concat (map textContent (drop so ks))
      = concat (map textContent (take (y - so) (drop so ks)))
        @ textContent (ks ! y) @ concat (map textContent (drop (Suc y) ks))"
    by (subst m[symmetric]) (simp add: d)
  moreover have "concat (map textContent ks)
      = concat (map textContent (take so ks)) @ concat (map textContent (drop so ks))"
    by (metis append_take_drop_id concat_append map_append)
  ultimately show ?thesis using endIn l
    by (simp add: flattenText_def textContent_cut)
next
  case (startIn i t a c ks x a')
  have m: "drop (Suc x) ks = take (eo - Suc x) (drop (Suc x) ks) @ drop eo ks"
    using startIn(4) by (metis append_take_drop_id drop_drop le_add_diff_inverse2 Suc_leI)
  have "concat (map textContent (drop (Suc x) ks))
      = concat (map textContent (take (eo - Suc x) (drop (Suc x) ks)))
        @ concat (map textContent (drop eo ks))"
    by (subst m) simp
  with text_split_nth[OF startIn(6)] show ?thesis using startIn
    by (simp add: flattenText_def textContent_cut[symmetric, of "ks ! x" "\<lambda>a. a" a' so g] id_fun)
next
  case (both i t a c ks x a' y b')
  have xy: "x \<noteq> y" "x < length ks" using both by simp_all
  have "concat (map textContent ks)
      = concat (map textContent (take x ks @ ks ! x # take (y - Suc x) (drop (Suc x) ks)
           @ ks ! y # drop (Suc y) ks))"
    using split_two[OF both(4,5)] by simp
  then have "concat (map textContent ks)
      = concat (map textContent (take x ks)) @ textContent (ks ! x)
        @ concat (map textContent (take (y - Suc x) (drop (Suc x) ks)))
        @ textContent (ks ! y) @ concat (map textContent (drop (Suc y) ks))" by simp
  then show ?thesis using both xy
    by (simp add: flattenText_def textContent_cut[symmetric, of "ks ! x" "\<lambda>a. a" a' so g]
          textContent_cut[symmetric, of "ks ! y" g b' eo "\<lambda>a. a"] id_fun)
qed

lemma text_lift:
  assumes "node_at cp B = Some M"
    and "textContent (cutBefore g1 [] off M') @ T @ textContent (cutAfter g2 [] off M')
           = textContent M"
  shows "textContent (cutBefore g1 cp off (modify_at cp (\<lambda>x. M') B)) @ T
         @ textContent (cutAfter g2 cp off (modify_at cp (\<lambda>x. M') B)) = textContent B"
  using assms
proof (induction cp arbitrary: B)
  case Nil then show ?case by simp
next
  case (Cons k p)
  then obtain i t a c ks where B: "B = Elem i t a c ks" by (cases B) (auto split: if_splits)
  with Cons.prems have k: "k < length ks" "node_at p (ks ! k) = Some M" by (auto split: if_splits)
  from Cons.IH[OF k(2) Cons.prems(2)] text_split_nth[OF k(1)] show ?case
    using B k(1) by simp
qed

lemma is_prefix_common:
  assumes "common_prefix sa ea = []"
  shows "is_prefix (c @ sa) (c @ ea) = (sa = [])"
proof (cases sa)
  case Nil then show ?thesis by (simp add: is_prefix_def)
next
  case (Cons x a')
  show ?thesis
  proof (cases ea)
    case Nil then show ?thesis using Cons by (simp add: is_prefix_def)
  next
    case ea: (Cons y b')
    with assms Cons have "x \<noteq> y" by (auto split: if_splits)
    then show ?thesis using Cons ea by (simp add: is_prefix_def)
  qed
qed

lemma clearFormattingExtract_general:
  assumes M: "node_at c (root d) = Some M"
    and ps: "path_of (startContainer rg) (root d) = Some (c @ sa)"
    and pe: "path_of (endContainer rg) (root d) = Some (c @ ea)"
    and cp0: "common_prefix sa ea = []"
    and nc: "\<not> collapsed rg"
    and ne: "fragmentToHtml
               (snd (extractAt (\<lambda>i. fresh d + i) sa (startOffset rg) ea (endOffset rg) M)) \<noteq> []"
  shows "clearFormattingExtract expand rg d
     = Some (flattenText (snd (extractAt (\<lambda>i. fresh d + i) sa (startOffset rg) ea (endOffset rg) M)),
             collapsedAt (nid M) (if sa = [] then startOffset rg else Suc (hd sa)),
             d\<lparr>root := modify_at c
                  (\<lambda>x. fst (extractAt (\<lambda>i. fresh d + i) sa (startOffset rg) ea (endOffset rg) M))
                  (root d),
               fresh := fresh d + fresh d\<rparr>)"
proof -
  let ?g = "\<lambda>i. fresh d + i"
  let ?X = "extractAt ?g sa (startOffset rg) ea (endOffset rg) M"
  have "extractAt ?g (c @ sa) (startOffset rg) (c @ ea) (endOffset rg) (root d)
      = (modify_at c (\<lambda>x. fst (extractAt ?g sa (startOffset rg) ea (endOffset rg) x)) (root d),
         snd ?X)"
    by (rule extractAt_common2[OF M])
  moreover have "modify_at c (\<lambda>x. fst (extractAt ?g sa (startOffset rg) ea (endOffset rg) x)) (root d)
      = modify_at c (\<lambda>x. fst ?X) (root d)"
    by (rule modify_at_cong[OF M]) simp
  ultimately have e: "extractAt ?g (c @ sa) (startOffset rg) (c @ ea) (endOffset rg) (root d)
      = (modify_at c (\<lambda>x. fst ?X) (root d), snd ?X)" by simp
  have "common_prefix (c @ sa) (c @ ea) = c @ common_prefix sa ea" by (rule common_prefix_append)
  then have cp: "common_prefix (c @ sa) (c @ ea) = c" using cp0 by simp
  have ip: "is_prefix (c @ sa) (c @ ea) = (sa = [])" by (rule is_prefix_common[OF cp0])
  have sn: "sa = [] \<Longrightarrow> startContainer rg = nid M"
  proof -
    assume "sa = []"
    with ps have "path_of (startContainer rg) (root d) = Some c" by simp
    from path_of_node_at[OF this] M show ?thesis by simp
  qed
  have hd: "sa \<noteq> [] \<Longrightarrow> (c @ sa) ! length c = hd sa" by (cases sa) simp_all
  have ex: "extractContents rg d
     = Some (snd ?X, collapsedAt (nid M) (if sa = [] then startOffset rg else Suc (hd sa)),
             d\<lparr>root := modify_at c (\<lambda>x. fst ?X) (root d), fresh := fresh d + fresh d\<rparr>)"
    using nc ps pe M sn hd
    by (simp add: extractContents_def e cp ip Let_def)
  show ?thesis
    unfolding clearFormattingExtract_def
    by (simp only: ex option.case prod.case ne if_False)
qed

lemma distinct_modify_sub:
  assumes dist: "distinct (map nid (nodes_of r))" and M: "node_at c r = Some M"
    and sub: "mset (map nid (nodes_of M')) \<subseteq># mset (map nid (nodes_of M))"
  shows "distinct (map nid (nodes_of (modify_at c (\<lambda>x. M') r)))"
proof -
  let ?A = "mset (map nid (nodes_of (modify_at c (\<lambda>x. M') r)))"
  from sub obtain R where R: "mset (map nid (nodes_of M)) = mset (map nid (nodes_of M')) + R"
    by (auto simp: mset_subset_eq_exists_conv)
  from ids_modify_at[OF M, of "\<lambda>x. M'"]
  have "?A + (mset (map nid (nodes_of M')) + R)
      = mset (map nid (nodes_of r)) + mset (map nid (nodes_of M'))" by (simp only: R)
  then have "?A + R = mset (map nid (nodes_of r))" by (simp add: ac_simps)
  moreover obtain rs where rs: "mset rs = R" using ex_mset by blast
  ultimately have "mset (map nid (nodes_of (modify_at c (\<lambda>x. M') r)) @ rs)
      = mset (map nid (nodes_of r))" by simp
  from mset_eq_imp_distinct_iff[OF this] dist
  have "distinct (map nid (nodes_of (modify_at c (\<lambda>x. M') r)) @ rs)" by simp
  then show ?thesis by simp
qed

lemma selectionClearFormatting_general:
  fixes d :: page and rg :: range and M :: node and sa ea cp :: "nat list"
  defines "X \<equiv> extractAt (\<lambda>i. fresh d + i) sa (startOffset rg) ea (endOffset rg) M"
    and "off1 \<equiv> (if sa = [] then startOffset rg else Suc (hd sa))"
  assumes dist: "distinct (map nid (nodes_of (root d)))"
    and rg: "getAllRanges d = rg # rest"
    and pl: "path_of limit (root d) = Some pl"
    and L: "getNode (root d) limit = Some (Elem limit t a c ks)"
    and ps: "path_of (startContainer rg) (root d) = Some (pl @ k # cp @ sa)"
    and pe: "path_of (endContainer rg) (root d) = Some (pl @ k # cp @ ea)"
    and cp0: "common_prefix sa ea = []"
    and M: "node_at cp (ks ! k) = Some M"
    and S: "getNode (root d) (startContainer rg) = Some S" and so: "startOffset rg \<le> nodeLength S"
    and E: "getNode (root d) (endContainer rg) = Some E" and eo: "endOffset rg \<le> nodeLength E"
    and nc: "\<not> collapsed rg"
    and ord: "\<not> lex_less (ea @ [endOffset rg]) (sa @ [startOffset rg])"
    and ne: "fragmentToHtml (snd X) \<noteq> []"
  shows "selectionClearFormatting expand limit d
     = Some (d\<lparr>root := modify_at pl
                  (\<lambda>x. Elem limit t a c
                      (take k ks
                       @ [cutBefore id cp off1 (modify_at cp (\<lambda>x. fst X) (ks ! k)),
                          Text (4 * fresh d) (flattenText (snd X)),
                          cutAfter (\<lambda>i. 2 * fresh d + i) cp off1
                            (modify_at cp (\<lambda>x. fst X) (ks ! k))]
                       @ drop (Suc k) ks))
                  (root d),
               fresh := Suc (4 * fresh d)\<rparr>)"
    and "textContent (cutBefore id cp off1 (modify_at cp (\<lambda>x. fst X) (ks ! k)))
         @ flattenText (snd X)
         @ textContent (cutAfter (\<lambda>i. 2 * fresh d + i) cp off1
                          (modify_at cp (\<lambda>x. fst X) (ks ! k)))
       = textContent (ks ! k)"
proof -
  let ?c = "pl @ k # cp"
  let ?B1 = "modify_at cp (\<lambda>x. fst X) (ks ! k)"
  let ?ks1 = "ks[k := ?B1]"
  let ?r1 = "modify_at ?c (\<lambda>x. fst X) (root d)"
  let ?d1 = "d\<lparr>root := ?r1, fresh := fresh d + fresh d\<rparr>"
  have L': "node_at pl (root d) = Some (Elem limit t a c ks)" using L pl by (simp add: getNode_def)
  from path_of_node_at[OF ps] obtain S' where "node_at (pl @ k # cp @ sa) (root d) = Some S'"
    by blast
  then have k: "k < length ks" using L' by (simp add: node_at_append split: if_splits)
  have Mc: "node_at ?c (root d) = Some M" using L' k M by (simp add: node_at_append)
  have Sa: "node_at sa M = Some S"
  proof -
    from S ps have "node_at (?c @ sa) (root d) = Some S" by (simp add: getNode_def)
    moreover have "node_at (?c @ sa) (root d)
        = (case node_at ?c (root d) of None \<Rightarrow> None | Some m \<Rightarrow> node_at sa m)"
      by (rule node_at_append)
    ultimately show ?thesis by (simp only: Mc option.case)
  qed
  have Ea: "node_at ea M = Some E"
  proof -
    from E pe have "node_at (?c @ ea) (root d) = Some E" by (simp add: getNode_def)
    moreover have "node_at (?c @ ea) (root d)
        = (case node_at ?c (root d) of None \<Rightarrow> None | Some m \<Rightarrow> node_at ea m)"
      by (rule node_at_append)
    ultimately show ?thesis by (simp only: Mc option.case)
  qed
  have ps': "path_of (startContainer rg) (root d) = Some (?c @ sa)" using ps by simp
  have pe': "path_of (endContainer rg) (root d) = Some (?c @ ea)" using pe by simp
  have e1: "clearFormattingExtract expand rg d
      = Some (flattenText (snd X), collapsedAt (nid M) off1, ?d1)"
    unfolding X_def off1_def
    by (rule clearFormattingExtract_general[OF Mc ps' pe' cp0 nc ne[unfolded X_def]])
  have rd: "root ?d1 = ?r1" "fresh ?d1 = fresh d + fresh d" by simp_all
  have sub: "mset (map nid (nodes_of (fst X))) \<subseteq># mset (map nid (nodes_of M))"
    unfolding X_def by (rule extract_ids[OF cp0 Sa Ea so eo ord])
  have "distinct (map nid (nodes_of ?r1))" by (rule distinct_modify_sub[OF dist Mc sub])
  then have dist1: "distinct (map nid (nodes_of (root ?d1)))" by simp
  have r1: "?r1 = modify_at pl (modify_at (k # cp) (\<lambda>x. fst X)) (root d)"
    by (rule modify_at_append)
  have fL: "modify_at (k # cp) (\<lambda>x. fst X) (Elem limit t a c ks) = Elem limit t a c ?ks1"
    using k by simp
  have "path_of limit (root d) = Some (pl @ [])" using pl by simp
  from path_of_modify_at[OF this L', of "modify_at (k # cp) (\<lambda>x. fst X)" "[]"]
  have "path_of limit (modify_at pl (modify_at (k # cp) (\<lambda>x. fst X)) (root d)) = Some pl"
    unfolding fL by simp
  then have pl1: "path_of limit (root ?d1) = Some pl" by (simp add: r1)
  have "node_at pl (modify_at pl (modify_at (k # cp) (\<lambda>x. fst X)) (root d))
      = Some (Elem limit t a c ?ks1)"
    using node_at_modify_at[OF L', of "modify_at (k # cp) (\<lambda>x. fst X)"] by (simp only: fL)
  then have L1: "node_at pl (root ?d1) = Some (Elem limit t a c ?ks1)" by (simp add: r1)
  have nX: "nid (fst X) = nid M" unfolding X_def by (rule nid_extractAt)
  have "path_of (nid M) (root d) = Some (?c @ [])"
    using node_at_path_of[OF Mc dist] by simp
  from path_of_modify_at[OF this Mc, of "\<lambda>x. fst X" "[]"] path_of_self[of "fst X"]
  have "path_of (nid M) ?r1 = Some (pl @ k # cp)" by (simp add: nX)
  then have pn1: "path_of (nid M) (root ?d1) = Some (pl @ k # cp)" by simp
  have k1: "k < length ?ks1" using k by simp
  have B1: "?ks1 ! k = ?B1" using k by simp
  have td: "take k ?ks1 = take k ks" "drop (Suc k) ?ks1 = drop (Suc k) ks" by simp_all
  have fr: "fresh d + fresh d + (fresh d + fresh d) = 4 * fresh d"
    "(+) (fresh d + fresh d) = (+) (2 * fresh d)" by (simp_all add: mult_2)
  have "clearFormattingPlace limit (flattenText (snd X)) (collapsedAt (nid M) off1) ?d1
     = Some (?d1\<lparr>root := modify_at pl
                  (\<lambda>x. Elem limit t a c
                      (take k ?ks1 @ [cutBefore id cp off1 (?ks1 ! k),
                                      Text (fresh ?d1 + fresh ?d1) (flattenText (snd X)),
                                      cutAfter (\<lambda>i. fresh ?d1 + i) cp off1 (?ks1 ! k)]
                        @ drop (Suc k) ?ks1))
                  (root ?d1),
               fresh := Suc (fresh ?d1 + fresh ?d1)\<rparr>)"
    by (rule clearFormattingPlace_block[OF dist1 pl1 pn1 L1 k1])
  then have p2: "clearFormattingPlace limit (flattenText (snd X)) (collapsedAt (nid M) off1) ?d1
     = Some (d\<lparr>root := modify_at pl
                  (\<lambda>x. Elem limit t a c
                      (take k ks @ [cutBefore id cp off1 ?B1,
                                    Text (4 * fresh d) (flattenText (snd X)),
                                    cutAfter (\<lambda>i. 2 * fresh d + i) cp off1 ?B1]
                        @ drop (Suc k) ks))
                  (root d),
               fresh := Suc (4 * fresh d)\<rparr>)"
    by (simp only: rd B1 td fr modify_at_absorb) simp
  show "selectionClearFormatting expand limit d
     = Some (d\<lparr>root := modify_at pl
                  (\<lambda>x. Elem limit t a c
                      (take k ks @ [cutBefore id cp off1 ?B1,
                                    Text (4 * fresh d) (flattenText (snd X)),
                                    cutAfter (\<lambda>i. 2 * fresh d + i) cp off1 ?B1]
                        @ drop (Suc k) ks))
                  (root d),
               fresh := Suc (4 * fresh d)\<rparr>)"
    unfolding selectionClearFormatting_def
    by (simp only: rg list.case e1 option.case prod.case p2)
  have "textContent (cutBefore id [] off1 (fst X)) @ flattenText (snd X)
         @ textContent (cutAfter (\<lambda>i. 2 * fresh d + i) [] off1 (fst X)) = textContent M"
    unfolding X_def off1_def by (rule extract_text[OF cp0 Sa Ea so eo ord])
  from text_lift[OF M this]
  show "textContent (cutBefore id cp off1 ?B1) @ flattenText (snd X)
         @ textContent (cutAfter (\<lambda>i. 2 * fresh d + i) cp off1 ?B1) = textContent (ks ! k)" .
qed

subsection \<open>Clearing the formatting of a selection inside a block\<close>

text \<open>
  C5. Range 0 of the selection lies in child \<open>k\<close> of the limit node, the containing block:
  its common ancestor \<open>M\<close> is at the path \<open>cp\<close> below the block, the start container at
  \<open>sa\<close> and the end container at \<open>ea\<close> below \<open>M\<close>. The range is not collapsed, its start
  is not after its end, its offsets are within its containers, and its contents serialise
  to markup that is not empty. The nodes of the document have distinct identities. Then
  \<open>selectionClearFormatting\<close> returns, and the children of the limit node become: the
  children before the block; the block without the selected contents, trimmed to what
  came before the selection; a new text node that holds the text of the selected contents
  without any markup; a clone of the block that holds what followed the selection, in its
  order; the children after the block. The text of the three parts, in this order, is the
  text of the block as it was. For \<open><div><p>A[B]C</p></div>\<close>, and for
  \<open><div><p>A[<b>B</b>]C</p></div>\<close> where the selection holds an element, with the \<open>div\<close>
  as limit node, the document becomes \<open><div><p>A</p>B<p>C</p></div>\<close>.
\<close>

theorem selectionClearFormatting_moves_tail:
  fixes d :: page and rg :: range and M :: node and sa ea cp :: "nat list"
  defines "X \<equiv> extractAt (\<lambda>i. fresh d + i) sa (startOffset rg) ea (endOffset rg) M"
    and "off1 \<equiv> (if sa = [] then startOffset rg else Suc (hd sa))"
  assumes "distinct (map nid (nodes_of (root d)))"
    and "getAllRanges d = rg # rest"
    and "path_of limit (root d) = Some pl"
    and "getNode (root d) limit = Some (Elem limit t a c ks)"
    and "path_of (startContainer rg) (root d) = Some (pl @ k # cp @ sa)"
    and "path_of (endContainer rg) (root d) = Some (pl @ k # cp @ ea)"
    and "common_prefix sa ea = []"
    and "node_at cp (ks ! k) = Some M"
    and "getNode (root d) (startContainer rg) = Some S" and "startOffset rg \<le> nodeLength S"
    and "getNode (root d) (endContainer rg) = Some E" and "endOffset rg \<le> nodeLength E"
    and "\<not> collapsed rg"
    and "\<not> lex_less (ea @ [endOffset rg]) (sa @ [startOffset rg])"
    and "fragmentToHtml (snd X) \<noteq> []"
  shows "selectionClearFormatting expand limit d
       = Some (d\<lparr>root := modify_at pl
                    (\<lambda>x. Elem limit t a c
                        (take k ks
                         @ [cutBefore id cp off1 (modify_at cp (\<lambda>x. fst X) (ks ! k)),
                            Text (4 * fresh d) (flattenText (snd X)),
                            cutAfter (\<lambda>i. 2 * fresh d + i) cp off1
                              (modify_at cp (\<lambda>x. fst X) (ks ! k))]
                         @ drop (Suc k) ks))
                    (root d),
                 fresh := Suc (4 * fresh d)\<rparr>)
     \<and> textContent (cutBefore id cp off1 (modify_at cp (\<lambda>x. fst X) (ks ! k)))
         @ flattenText (snd X)
         @ textContent (cutAfter (\<lambda>i. 2 * fresh d + i) cp off1
                          (modify_at cp (\<lambda>x. fst X) (ks ! k)))
       = textContent (ks ! k)
     \<and> map_option (outerHTML \<circ> root) (selectionClearFormatting expand 1 page_ABC)
       = Some ''<div><p>A</p>B<p>C</p></div>''
     \<and> map_option (outerHTML \<circ> root) (selectionClearFormatting expand 1 page_bold)
       = Some ''<div><p>A</p>B<p>C</p></div>''"
proof (intro conjI)
  show "selectionClearFormatting expand limit d
       = Some (d\<lparr>root := modify_at pl
                    (\<lambda>x. Elem limit t a c
                        (take k ks
                         @ [cutBefore id cp off1 (modify_at cp (\<lambda>x. fst X) (ks ! k)),
                            Text (4 * fresh d) (flattenText (snd X)),
                            cutAfter (\<lambda>i. 2 * fresh d + i) cp off1
                              (modify_at cp (\<lambda>x. fst X) (ks ! k))]
                         @ drop (Suc k) ks))
                    (root d),
                 fresh := Suc (4 * fresh d)\<rparr>)"
    unfolding X_def off1_def
    by (rule selectionClearFormatting_general(1)[OF assms(3-16) assms(17)[unfolded X_def]])
  show "textContent (cutBefore id cp off1 (modify_at cp (\<lambda>x. fst X) (ks ! k)))
         @ flattenText (snd X)
         @ textContent (cutAfter (\<lambda>i. 2 * fresh d + i) cp off1
                          (modify_at cp (\<lambda>x. fst X) (ks ! k)))
       = textContent (ks ! k)"
    unfolding X_def off1_def
    by (rule selectionClearFormatting_general(2)[OF assms(3-16) assms(17)[unfolded X_def]])
  show "map_option (outerHTML \<circ> root) (selectionClearFormatting expand 1 page_ABC)
       = Some ''<div><p>A</p>B<p>C</p></div>''"
    by code_simp
  show "map_option (outerHTML \<circ> root) (selectionClearFormatting expand 1 page_bold)
       = Some ''<div><p>A</p>B<p>C</p></div>''"
    by code_simp
qed

theorem selectionClearFormatting_moves_tail_witness:
  "selectionClearFormatting (\<lambda>d rg. rg) 1 page_bold
     = Some (page_bold\<lparr>root := Elem 1 ''div'' [] []
                                 [Elem 2 ''p'' [] [] [Text 3 ''A''], Text 28 ''B'',
                                  Elem 16 ''p'' [] [] [Text 6 ''C'']],
                       fresh := 29\<rparr>)
   \<and> snd (extractAt (\<lambda>i. 7 + i) [0] 1 [2] 0
             (Elem 2 ''p'' [] [] [Text 3 ''A'', Elem 4 ''b'' [] [] [Text 5 ''B''], Text 6 ''C'']))
       = [Text 10 [], Elem 4 ''b'' [] [] [Text 5 ''B''], Text 13 []]"
proof -
  let ?p = "Elem 2 ''p'' [] [] [Text 3 ''A'', Elem 4 ''b'' [] [] [Text 5 ''B''], Text 6 ''C'']"
  let ?rg = "\<lparr>startContainer = 3, startOffset = 1, endContainer = 6, endOffset = 0\<rparr>"
  have h1: "distinct (map nid (nodes_of (root page_bold)))" by code_simp
  have h2: "getAllRanges page_bold = ?rg # []" by code_simp
  have h3: "path_of 1 (root page_bold) = Some []" by code_simp
  have h4: "getNode (root page_bold) 1 = Some (Elem 1 ''div'' [] [] [?p])" by code_simp
  have h5: "path_of (startContainer ?rg) (root page_bold) = Some ([] @ 0 # [] @ [0])" by code_simp
  have h6: "path_of (endContainer ?rg) (root page_bold) = Some ([] @ 0 # [] @ [2])" by code_simp
  have h7: "common_prefix [0::nat] [2] = []" by code_simp
  have h8: "node_at [] ([?p] ! 0) = Some ?p" by code_simp
  have h9: "getNode (root page_bold) (startContainer ?rg) = Some (Text 3 ''A'')" by code_simp
  have h10: "startOffset ?rg \<le> nodeLength (Text 3 ''A'')" by code_simp
  have h11: "getNode (root page_bold) (endContainer ?rg) = Some (Text 6 ''C'')" by code_simp
  have h12: "endOffset ?rg \<le> nodeLength (Text 6 ''C'')" by code_simp
  have h13: "\<not> collapsed ?rg" by code_simp
  have h14: "\<not> lex_less ([2] @ [endOffset ?rg]) ([0] @ [startOffset ?rg])" by code_simp
  have h15: "fragmentToHtml (snd (extractAt (\<lambda>i. fresh page_bold + i) [0] (startOffset ?rg) [2]
               (endOffset ?rg) ?p)) \<noteq> []" by code_simp
  have r: "selectionClearFormatting (\<lambda>d rg. rg) 1 page_bold
     = Some (page_bold\<lparr>root := Elem 1 ''div'' [] []
                                 [Elem 2 ''p'' [] [] [Text 3 ''A''], Text 28 ''B'',
                                  Elem 16 ''p'' [] [] [Text 6 ''C'']],
                       fresh := 29\<rparr>)"
    using selectionClearFormatting_moves_tail
      [OF h1 h2 h3 h4 h5 h6 h7 h8 h9 h10 h11 h12 h13 h14 h15, of "\<lambda>d rg. rg", THEN conjunct1]
    by (simp add: page_bold_def flattenText_def eval_nat_numeral)
  have f: "snd (extractAt (\<lambda>i. 7 + i) [0] 1 [2] 0 ?p)
       = [Text 10 [], Elem 4 ''b'' [] [] [Text 5 ''B''], Text 13 []]" by code_simp
  from r f show ?thesis by simp
qed
section \<open>The change of tags\<close>

text \<open>
  The rename branch on \<open><p>Hello <b>world</b></p>\<close> with \<open>world\<close> selected: the \<open>b\<close> is
  found, also when the selector names it in capitals, and renamed.
\<close>

lemma selectionChangeTags_renames_b:
  "map_option (outerHTML \<circ> root) (selectionChangeTags parseHTML ''i'' [''b''] 1 page_hello)
     = Some ''<p>Hello <i>world</i></p>''
   \<and> map_option (outerHTML \<circ> root) (selectionChangeTags parseHTML ''i'' [''B''] 1 page_hello)
     = Some ''<p>Hello <i>world</i></p>''"
  by (intro conjI; code_simp)

text \<open>
  C4. \<open>selectionChangeTags\<close> searches the document as \<open>selectionSave\<close> leaves it, with the
  marker elements of the saved selection in it, and these are \<open>span\<close> elements. On
  \<open><p>Hello <b>world</b></p>\<close> with \<open>world\<close> selected and \<open>span\<close> as the tag to change, the
  document has no \<open>span\<close>, yet the search returns the two markers and nothing else. So the
  rename branch is taken and the content of the limit element is not wrapped. The markers
  are given to \<open>elementChangeTag\<close> and then removed by \<open>selectionRestore\<close>, and the document
  comes back as it was: no element is renamed and nothing is wrapped, whatever the parser.
\<close>

theorem selectionChangeTags_finds_markers:
  "filter (matches [''span'']) (nodes_of (root page_hello)) = []
   \<and> Option.bind (selectionSave False page_hello)
         (selectionFindWrappingAndInnerElements [''span''] 1) = Some [7, 5]
   \<and> map_option (\<lambda>d1. map (classesOf (root d1)) [7, 5]) (selectionSave False page_hello)
       = Some [[''rangySelectionBoundary''], [''rangySelectionBoundary'']]
   \<and> map_option (outerHTML \<circ> root) (selectionChangeTags parseHTML ''i'' [''span''] 1 page_hello)
       = Some ''<p>Hello <b>world</b></p>''"
  by (intro conjI; code_simp)
section \<open>Properties of the replacement within valid tags\<close>







lemma nid_removeAttr [simp]: "nid (removeAttr k n) = nid n"
  by (cases n) auto









subsection \<open>Replacing in place, or splitting the selected element\<close>


end
